theory Spec2Isabelle
  imports Complex_Main "HOL-Library.Multiset" "HOL-Library.Log_Nat"
begin

section \<open>Arrays and the Kronecker product\<close>

text \<open>
  The module \<^verbatim>\<open>qiskit_machine_learning/datasets/ad_hoc.py\<close> works on NumPy arrays of
  double-precision floats. The embedding reads a float as a real number (no rounding),
  a one-dimensional array as a list and a two-dimensional array as the list of its rows.
  A private function \<^verbatim>\<open>_f\<close> of the module is named \<open>f\<close> here.
\<close>

type_synonym vec = "real list"
type_synonym mat = "real list list"

text \<open>What a name of \<^verbatim>\<open>_n_hadamard\<close> can hold: the Python number \<^verbatim>\<open>1\<close>
  it starts from, or a two-dimensional array.\<close>

datatype ndarray = Scalar real | Mat mat

datatype pyerror = NameError string | TypeError | ValueError | ZeroDivisionError | IndexError

text \<open>All products \<open>f a b\<close>, the left index slow, the right index fast.\<close>

definition outer :: "('a \<Rightarrow> 'b \<Rightarrow> 'c) \<Rightarrow> 'a list \<Rightarrow> 'b list \<Rightarrow> 'c list" where
  "outer f xs ys = concat (map (\<lambda>a. map (f a) ys) xs)"

definition vkron :: "vec \<Rightarrow> vec \<Rightarrow> vec" where
  "vkron = outer (*)"

text \<open>\<^verbatim>\<open>np.kron\<close> on two matrices: row \<open>i * p + k\<close> of the result is the Kronecker
  product of row \<open>i\<close> of the left and row \<open>k\<close> of the right argument.\<close>

definition kron :: "mat \<Rightarrow> mat \<Rightarrow> mat" where
  "kron = outer vkron"

text \<open>\<^verbatim>\<open>np.kron\<close> also takes numbers, which multiply every entry.\<close>

fun np_kron :: "ndarray \<Rightarrow> ndarray \<Rightarrow> ndarray" where
  "np_kron (Scalar a) (Scalar b) = Scalar (a * b)"
| "np_kron (Scalar a) (Mat B) = Mat (map (map (\<lambda>x. a * x)) B)"
| "np_kron (Mat A) (Scalar b) = Mat (map (map (\<lambda>x. x * b)) A)"
| "np_kron (Mat A) (Mat B) = Mat (kron A B)"

definition is_matrix :: "nat \<Rightarrow> nat \<Rightarrow> mat \<Rightarrow> bool" where
  "is_matrix r c A \<longleftrightarrow> length A = r \<and> list_all (\<lambda>row. length row = c) A"


section \<open>\<^verbatim>\<open>_n_hadamard\<close>\<close>

text \<open>\<^verbatim>\<open>base = np.array([[1, 1], [1, -1]]) / np.sqrt(2)\<close>\<close>

definition hadamard_base :: mat where
  "hadamard_base = [[1 / sqrt 2, 1 / sqrt 2], [1 / sqrt 2, - 1 / sqrt 2]]"

text \<open>The loop \<^verbatim>\<open>while expo>0\<close> of \<^verbatim>\<open>_n_hadamard\<close> on its three variables.\<close>

function n_hadamard_loop :: "ndarray \<Rightarrow> mat \<Rightarrow> int \<Rightarrow> ndarray" where
  "n_hadamard_loop result base expo =
     (if expo > 0
      then n_hadamard_loop
             (if expo mod 2 = 1 then np_kron result (Mat base) else result)
             (kron base base)
             (expo div 2)
      else result)"
  by pat_completeness auto
termination
  by (relation "measure (\<lambda>(result, base, expo). nat expo)") auto

declare n_hadamard_loop.simps [simp del]

definition n_hadamard :: "int \<Rightarrow> ndarray" where
  "n_hadamard n = n_hadamard_loop (Scalar 1) hadamard_base n"

text \<open>The naive \<open>n\<close>-fold Kronecker product \<open>M \<otimes> \<dots> \<otimes> M\<close>, one factor at a time,
  starting from the number 1: what \<^verbatim>\<open>_n_hadamard\<close> is compared with.\<close>

primrec kron_power :: "mat \<Rightarrow> nat \<Rightarrow> ndarray" where
  "kron_power M 0 = Scalar 1"
| "kron_power M (Suc n) = np_kron (kron_power M n) (Mat M)"

text \<open>The \<open>n\<close>-fold product inside the type of matrices, from the 1 by 1 identity.\<close>

primrec kpow :: "mat \<Rightarrow> nat \<Rightarrow> mat" where
  "kpow M 0 = [[1]]"
| "kpow M (Suc n) = kron (kpow M n) M"

section \<open>\<^verbatim>\<open>_n_z\<close>\<close>

definition ncols :: "mat \<Rightarrow> nat" where
  "ncols A = (case A of [] \<Rightarrow> 0 | row # _ \<Rightarrow> length row)"

text \<open>\<^verbatim>\<open>np.diag\<close> of a two-dimensional array is its main diagonal.\<close>

definition diagonal :: "mat \<Rightarrow> vec" where
  "diagonal A = map (\<lambda>i. A ! i ! i) [0..<min (length A) (ncols A)]"

text \<open>\<^verbatim>\<open>np.diag\<close> of a one-dimensional array is the square matrix that has it on
  the diagonal and zero elsewhere.\<close>

definition diag_matrix :: "vec \<Rightarrow> mat" where
  "diag_matrix v = map (\<lambda>i. map (\<lambda>j. if i = j then v ! i else 0) [0..<length v]) [0..<length v]"

text \<open>\<^verbatim>\<open>_n_z\<close>: \<^verbatim>\<open>np.diag\<close>, \<^verbatim>\<open>np.sign\<close>, \<^verbatim>\<open>np.diag\<close>. The first
  \<^verbatim>\<open>np.diag\<close> raises ValueError on an input that is not an array of one or two
  dimensions, such as the number \<^verbatim>\<open>_n_hadamard(0)\<close>.\<close>

fun n_z :: "ndarray \<Rightarrow> pyerror + mat" where
  "n_z (Scalar a) = Inl ValueError"
| "n_z (Mat h_n) = Inr (diag_matrix (map sgn (diagonal h_n)))"

text \<open>\<^verbatim>\<open>z = np.diag([1, -1])\<close>, as in \<^verbatim>\<open>_i_z\<close>.\<close>

definition pauli_z :: mat where
  "pauli_z = diag_matrix [1, - 1]"

text \<open>The number of 1-bits of \<open>k\<close>.\<close>

fun popcount :: "nat \<Rightarrow> nat" where
  "popcount k = (if k = 0 then 0 else k mod 2 + popcount (k div 2))"

declare popcount.simps [simp del]

text \<open>The \<open>n\<close>-fold Kronecker product of a vector with itself.\<close>

primrec vpow :: "vec \<Rightarrow> nat \<Rightarrow> vec" where
  "vpow v 0 = [1]"
| "vpow v (Suc n) = vkron (vpow v n) v"

section \<open>\<^verbatim>\<open>_modified_LHC\<close> and \<^verbatim>\<open>_sobol_sampling\<close>\<close>

text \<open>
  \<^verbatim>\<open>algorithm_globals.random\<close> is a NumPy generator. What \<^verbatim>\<open>_modified_LHC\<close> takes
  from it is a parameter of the model: for the pass over dimension \<open>d\<close>, the
  permutation that \<^verbatim>\<open>shuffle\<close> applies to \<^verbatim>\<open>all_bins\<close> (entry \<open>k\<close> of the shuffled
  array is entry \<open>p ! k\<close> of the array before), and the numbers that
  \<^verbatim>\<open>random(n_samples)\<close> returns.
\<close>

record lhc_random =
  shuffle_perm :: "nat \<Rightarrow> nat list"
  random_offset :: "nat \<Rightarrow> nat \<Rightarrow> real"

definition shuffle :: "nat list \<Rightarrow> 'a list \<Rightarrow> 'a list" where
  "shuffle p xs = map (\<lambda>k. xs ! k) p"

definition is_permutation :: "nat list \<Rightarrow> nat \<Rightarrow> bool" where
  "is_permutation p m \<longleftrightarrow> length p = m \<and> distinct p \<and> list_all (\<lambda>k. k < m) p"

text \<open>The generator's contract: \<^verbatim>\<open>shuffle\<close> permutes an array of \<open>m\<close> entries, and
  \<^verbatim>\<open>random\<close> returns numbers of the half-open interval from 0 to 1.\<close>

definition lhc_random_ok :: "lhc_random \<Rightarrow> nat \<Rightarrow> nat \<Rightarrow> nat \<Rightarrow> bool" where
  "lhc_random_ok rng n n_samples m \<longleftrightarrow>
     list_all (\<lambda>d. is_permutation (shuffle_perm rng d) m \<and>
        list_all (\<lambda>s. 0 \<le> random_offset rng d s \<and> random_offset rng d s < 1) [0..<n_samples])
       [0..<n]"

text \<open>\<^verbatim>\<open>samples[:, dim] = column\<close>\<close>

definition set_column :: "nat \<Rightarrow> vec \<Rightarrow> mat \<Rightarrow> mat" where
  "set_column d column samples = map2 (\<lambda>row v. row[d := v]) samples column"

text \<open>One round of \<^verbatim>\<open>for dim in range(n)\<close> (the loop variable is \<open>d\<close> here), on
  the arrays \<^verbatim>\<open>samples\<close> and
  \<^verbatim>\<open>all_bins\<close> that it updates in place.\<close>

definition lhc_step :: "lhc_random \<Rightarrow> real \<Rightarrow> nat \<Rightarrow> nat \<Rightarrow> mat \<times> nat list \<Rightarrow> mat \<times> nat list" where
  "lhc_step rng bin_size n_samples d st =
     (let all_bins = shuffle (shuffle_perm rng d) (snd st);
          chosen_bins = take n_samples all_bins;
          offsets = map (random_offset rng d) [0..<n_samples];
          column = map2 (\<lambda>b off. (real b + off) * bin_size) chosen_bins offsets
      in (set_column d column (fst st), all_bins))"

text \<open>\<^verbatim>\<open>(n_samples+n_div-1)//n_div\<close> and \<^verbatim>\<open>np.tile(np.arange(n_div),n_passes)\<close>\<close>

definition lhc_n_passes :: "nat \<Rightarrow> nat \<Rightarrow> nat" where
  "lhc_n_passes n_samples n_div = (n_samples + n_div - 1) div n_div"

definition lhc_all_bins :: "nat \<Rightarrow> nat \<Rightarrow> nat list" where
  "lhc_all_bins n_samples n_div = concat (replicate (lhc_n_passes n_samples n_div) [0..<n_div])"

text \<open>
  \<^verbatim>\<open>_modified_LHC\<close>. The array of \<^verbatim>\<open>np.empty\<close> holds whatever the memory held: its
  content \<open>uninit\<close> is a parameter, an \<open>n_samples\<close> by \<open>n\<close> array. Dividing by
  \<^verbatim>\<open>n_div = 0\<close> raises. The arguments are natural numbers: negative ones are outside
  the model.
\<close>

definition modified_LHC :: "nat \<Rightarrow> nat \<Rightarrow> nat \<Rightarrow> lhc_random \<Rightarrow> mat \<Rightarrow> pyerror + mat" where
  "modified_LHC n n_samples n_div rng uninit =
     (if n_div = 0 then Inl ZeroDivisionError
      else let bin_size = 2 * pi / real n_div;
               all_bins = lhc_all_bins n_samples n_div
           in Inr (fst (fold (lhc_step rng bin_size n_samples) [0..<n] (uninit, all_bins))))"

text \<open>The content of \<^verbatim>\<open>all_bins\<close> after the shuffles for dimensions \<open>0, \<dots>, k - 1\<close>, and
  the \<^verbatim>\<open>chosen_bins\<close> of dimension \<open>d\<close>.\<close>

definition lhc_bins_after :: "lhc_random \<Rightarrow> nat list \<Rightarrow> nat \<Rightarrow> nat list" where
  "lhc_bins_after rng all_bins k = fold (\<lambda>d bins. shuffle (shuffle_perm rng d) bins) [0..<k] all_bins"

definition lhc_chosen_bins :: "lhc_random \<Rightarrow> nat \<Rightarrow> nat \<Rightarrow> nat \<Rightarrow> nat list" where
  "lhc_chosen_bins rng n_samples n_div d =
     take n_samples (lhc_bins_after rng (lhc_all_bins n_samples n_div) (Suc d))"

text \<open>The \<^verbatim>\<open>(chosen_bins+offsets)*bin_size\<close> of dimension \<open>d\<close>.\<close>

definition lhc_column :: "lhc_random \<Rightarrow> real \<Rightarrow> nat \<Rightarrow> nat list \<Rightarrow> nat \<Rightarrow> vec" where
  "lhc_column rng bs ns B d =
     map2 (\<lambda>b off. (real b + off) * bs) (take ns (lhc_bins_after rng B (Suc d)))
       (map (random_offset rng d) [0..<ns])"


text \<open>
  \<^verbatim>\<open>_sobol_sampling\<close>. The scrambled Sobol sampler of SciPy is a parameter:
  \<open>sobol_random d k\<close> is what \<^verbatim>\<open>Sobol(d=d, scramble=True).random(k)\<close> returns, a
  \<open>k\<close> by \<open>d\<close> array of numbers of the half-open interval from 0 to 1.
\<close>

definition sobol_sampling :: "nat \<Rightarrow> nat \<Rightarrow> (nat \<Rightarrow> nat \<Rightarrow> mat) \<Rightarrow> mat" where
  "sobol_sampling n n_samples sobol_random = map (map (\<lambda>u. 2 * pi * u)) (sobol_random n n_samples)"

definition unit_interval_matrix :: "nat \<Rightarrow> nat \<Rightarrow> mat \<Rightarrow> bool" where
  "unit_interval_matrix r c A \<longleftrightarrow> is_matrix r c A \<and> list_all (list_all (\<lambda>u. 0 \<le> u \<and> u < 1)) A"

definition in_parameter_space :: "mat \<Rightarrow> bool" where
  "in_parameter_space A \<longleftrightarrow> list_all (list_all (\<lambda>x. 0 \<le> x \<and> x < 2 * pi)) A"


section \<open>\<^verbatim>\<open>_sample_ad_hoc_data\<close>\<close>

text \<open>
  The argument \<^verbatim>\<open>sample_total\<close> is an array of \<open>n\<close> dimensions with
  \<^verbatim>\<open>count = sample_total.shape[0]\<close> entries along each: its entries in row-major order
  are \<open>flat\<close>, and \<^verbatim>\<open>sample_total[draws]\<close> reads the entry at the tuple \<open>draws\<close>.
\<close>

record grid =
  shape0 :: nat
  flat :: "real list"

definition grid_ok :: "nat \<Rightarrow> grid \<Rightarrow> bool" where
  "grid_ok n g \<longleftrightarrow> 0 < n \<and> length (flat g) = shape0 g ^ n"

definition grid_at :: "grid \<Rightarrow> nat list \<Rightarrow> real" where
  "grid_at g draws = flat g ! foldl (\<lambda>acc d. acc * shape0 g + d) 0 draws"

text \<open>\<^verbatim>\<open>tuple(algorithm_globals.random.choice(count) for i in range(n))\<close>: the
  generator is the sequence \<open>choice\<close> of the numbers it returns, and \<open>pos\<close> counts the
  calls made so far.\<close>

definition draws_at :: "(nat \<Rightarrow> nat) \<Rightarrow> nat \<Rightarrow> nat \<Rightarrow> nat list" where
  "draws_at choice n pos = map choice [pos..<pos + n]"

text \<open>
  The loop \<^verbatim>\<open>while len(sample_list) < num_samples\<close>. It may run forever: \<open>fuel\<close>
  bounds the number of rounds, and \<open>None\<close> says that the bound was reached.
  \<^verbatim>\<open>choice(0)\<close> raises ValueError, and \<^verbatim>\<open>xvals[d]\<close> raises IndexError past the
  end of \<^verbatim>\<open>xvals\<close>.
\<close>

fun sample_loop ::
  "nat \<Rightarrow> grid \<Rightarrow> vec \<Rightarrow> nat \<Rightarrow> nat \<Rightarrow> real \<Rightarrow> (nat \<Rightarrow> nat) \<Rightarrow> nat \<Rightarrow> vec list
   \<Rightarrow> (pyerror + vec list \<times> nat) option" where
  "sample_loop 0 sample_total xvals num_samples n label choice pos sample_list =
     (if length sample_list < num_samples then None
      else Some (Inr (sample_list, pos)))"
| "sample_loop (Suc fuel) sample_total xvals num_samples n label choice pos sample_list =
     (if length sample_list < num_samples then
        (if shape0 sample_total = 0 \<and> 0 < n then Some (Inl ValueError)
         else let draws = draws_at choice n pos in
           if grid_at sample_total draws = label then
             (if list_all (\<lambda>d. d < length xvals) draws
              then sample_loop fuel sample_total xvals num_samples n label choice (pos + n)
                     (sample_list @ [map (\<lambda>d. xvals ! d) draws])
              else Some (Inl IndexError))
           else sample_loop fuel sample_total xvals num_samples n label choice (pos + n) sample_list)
      else Some (Inr (sample_list, pos)))"

text \<open>\<^verbatim>\<open>_sample_ad_hoc_data\<close>: the loop for label 1, then for label -1, then the
  labels \<^verbatim>\<open>[0] * num_samples + [1] * num_samples\<close> and the reshaped samples.\<close>

definition sample_ad_hoc_data ::
  "nat \<Rightarrow> grid \<Rightarrow> vec \<Rightarrow> nat \<Rightarrow> nat \<Rightarrow> (nat \<Rightarrow> nat) \<Rightarrow> (pyerror + mat \<times> int list) option" where
  "sample_ad_hoc_data fuel sample_total xvals num_samples n choice =
     (case sample_loop fuel sample_total xvals num_samples n 1 choice 0 [] of
        None \<Rightarrow> None
      | Some (Inl e) \<Rightarrow> Some (Inl e)
      | Some (Inr (sample_a, pos)) \<Rightarrow>
          (case sample_loop fuel sample_total xvals num_samples n (- 1) choice pos [] of
             None \<Rightarrow> None
           | Some (Inl e) \<Rightarrow> Some (Inl e)
           | Some (Inr (sample_b, pos')) \<Rightarrow>
               Some (Inr (sample_a @ sample_b,
                          replicate num_samples 0 @ replicate num_samples 1))))"

text \<open>The generator's contract: \<^verbatim>\<open>choice(count)\<close> is less than \<open>count\<close>.\<close>

definition choice_ok :: "(nat \<Rightarrow> nat) \<Rightarrow> grid \<Rightarrow> bool" where
  "choice_ok choice g \<longleftrightarrow> (\<forall>k. choice k < shape0 g)"

text \<open>Round \<open>k\<close> of the generator draws a cell labelled \<open>label\<close>; and it does so again
  and again.\<close>

definition hit :: "grid \<Rightarrow> (nat \<Rightarrow> nat) \<Rightarrow> nat \<Rightarrow> real \<Rightarrow> nat \<Rightarrow> bool" where
  "hit g choice n label k \<longleftrightarrow> grid_at g (draws_at choice n (k * n)) = label"

definition hits_forever :: "grid \<Rightarrow> (nat \<Rightarrow> nat) \<Rightarrow> nat \<Rightarrow> real \<Rightarrow> bool" where
  "hits_forever g choice n label \<longleftrightarrow> (\<forall>j. \<exists>k\<ge>j. hit g choice n label k)"

text \<open>Grids and generators for the examples below.\<close>

definition example_grid :: grid where
  "example_grid = \<lparr>shape0 = 2, flat = [1, - 1]\<rparr>"

definition example_grid_one_label :: grid where
  "example_grid_one_label = \<lparr>shape0 = 1, flat = [1]\<rparr>"

definition example_choice :: "nat \<Rightarrow> nat" where
  "example_choice k = k mod 2"

definition example_choice_zero :: "nat \<Rightarrow> nat" where
  "example_choice_zero k = 0"

section \<open>\<^verbatim>\<open>ad_hoc_data\<close>\<close>

text \<open>
  The names bound at module level when the body of \<^verbatim>\<open>ad_hoc_data\<close> runs (the
  imports and the functions the module defines; the call on the last line of the module
  comes after all of them), and the built-in names the body uses. Python looks a name up
  among the function's local names first, then here; a name bound in neither place
  raises NameError.
\<close>

definition module_names :: "string list" where
  "module_names =
     [''annotations'', ''reduce'', ''it'', ''Tuple'', ''Dict'', ''List'', ''np'',
      ''preprocessing'', ''optionals'', ''algorithm_globals'', ''Sobol'',
      ''ad_hoc_data'', ''_sample_ad_hoc_data'', ''_plot_ad_hoc_data'',
      ''_features_and_labels_transform'', ''_n_hadamard'', ''_i_z'', ''_n_z'',
      ''_modified_LHC'', ''_sobol_sampling'', ''_phi_i'', ''_phi_ij'']"

definition builtin_names :: "string list" where
  "builtin_names = [''range'', ''enumerate'', ''tuple'', ''len'', ''print'']"

definition resolve :: "string \<Rightarrow> pyerror + unit" where
  "resolve name =
     (if name \<in> set module_names \<or> name \<in> set builtin_names then Inr ()
      else Inl (NameError name))"

text \<open>
  \<^verbatim>\<open>ad_hoc_data\<close>, lines 105 to 112. \<^verbatim>\<open>np.ones(2**n)\<close> raises TypeError for a
  negative integer \<open>n\<close>, where \<^verbatim>\<open>2**n\<close> is a float. Line 112 calls the name
  \<^verbatim>\<open>n_hadamard\<close>, which the body never assigns. The statements from line 115 on run
  only once that call has returned: they are the parameter \<open>rest\<close>, which receives the
  value of \<^verbatim>\<open>h_n\<close>.
\<close>

definition ad_hoc_data ::
  "int \<Rightarrow> int \<Rightarrow> int \<Rightarrow> real \<Rightarrow> int \<Rightarrow> bool \<Rightarrow> bool \<Rightarrow> bool \<Rightarrow> (ndarray \<Rightarrow> pyerror + 'r)
   \<Rightarrow> pyerror + 'r" where
  "ad_hoc_data train_size test_size n gap divisions plot_data one_hot include_sample_total rest =
     (if n < 0 then Inl TypeError
      else case resolve ''n_hadamard'' of
             Inl e \<Rightarrow> Inl e
           | Inr _ \<Rightarrow> rest (n_hadamard n))"

text \<open>
  Lines 154 to 156: \<^verbatim>\<open>Uphi\<close> is ten square matrices of zeros, and the assignment
  \<^verbatim>\<open>Uphi[:, cols, cols] = post_exp[:, cols]\<close> writes the rows of \<^verbatim>\<open>post_exp\<close> on
  their diagonals. NumPy broadcasts the \<^verbatim>\<open>n_samples\<close> rows to the ten matrices: ten
  rows fit, one row is repeated, any other number raises ValueError. The model keeps the
  diagonal of each of the ten matrices.
\<close>

definition uphi_diagonals :: "'a list list \<Rightarrow> pyerror + 'a list list" where
  "uphi_diagonals post_exp =
     (if length post_exp = 10 then Inr post_exp
      else if length post_exp = 1 then Inr (replicate 10 (hd post_exp))
      else Inl ValueError)"

text \<open>
  Lines 164 to 167, on the array \<^verbatim>\<open>exp_val\<close> of expectation values (one for each
  matrix of \<^verbatim>\<open>Uphi\<close>). The condition of the \<^verbatim>\<open>if\<close> is an array: with more than
  one entry its truth value raises ValueError. Both branches then call
  \<^verbatim>\<open>_sample_total.append\<close>, a name bound nowhere.
\<close>

definition label_step :: "real list \<Rightarrow> real \<Rightarrow> pyerror + real list" where
  "label_step exp_val gap =
     (if 1 < length exp_val then Inl ValueError
      else case resolve ''_sample_total'' of
             Inl e \<Rightarrow> Inl e
           | Inr _ \<Rightarrow> Inr (map (\<lambda>v. if \<bar>v\<bar> > gap then sgn v else 0) exp_val))"

section \<open>Double precision\<close>

text \<open>
  NumPy computes on IEEE 754 doubles: the result of an arithmetic operation is the exact
  result rounded to the nearest number with a 53-bit significand, a tie going to the even
  significand. \<open>fl64\<close> is that rounding, on the normal range (all numbers of this module
  are far from overflow and from the subnormal numbers); a double is a real number that
  \<open>fl64\<close> leaves as it is.
\<close>

definition round_half_even :: "real \<Rightarrow> int" where
  "round_half_even x =
     (let f = \<lfloor>x\<rfloor>; r = x - of_int f
      in if r < 1 / 2 then f else if 1 / 2 < r then f + 1 else if even f then f else f + 1)"

text \<open>For \<open>x > 0\<close>, the integer \<open>k\<close> with \<open>2 ^ k \<le> x < 2 ^ (k + 1)\<close>.\<close>

definition floor_log2 :: "real \<Rightarrow> int" where
  "floor_log2 x = (if 1 \<le> x then bitlen \<lfloor>x\<rfloor> - 1 else - bitlen (\<lceil>1 / x\<rceil> - 1))"

definition fl64 :: "real \<Rightarrow> real" where
  "fl64 x =
     (if x = 0 then 0
      else let e = floor_log2 \<bar>x\<bar> - 52
           in of_int (round_half_even (x / 2 powi e)) * 2 powi e)"


definition fadd :: "real \<Rightarrow> real \<Rightarrow> real" where
  "fadd a b = fl64 (a + b)"



definition np_pi :: real where
  "np_pi = 7074237752028440 / 2 ^ 51"

section \<open>\<^verbatim>\<open>_n_hadamard\<close> in double precision\<close>














section \<open>Facts about the Kronecker product\<close>

lemma outer_Nil [simp]: "outer f [] ys = []"
  by (simp add: outer_def)

lemma outer_Cons [simp]: "outer f (x # xs) ys = map (f x) ys @ outer f xs ys"
  by (simp add: outer_def)

lemma outer_append: "outer f (xs @ xs') ys = outer f xs ys @ outer f xs' ys"
  by (induction xs) simp_all

lemma outer_map_left:
  assumes "\<And>b c. f (f x b) c = f x (f b c)"
  shows "outer f (map (f x) ys) zs = map (f x) (outer f ys zs)"
  using assms by (induction ys) simp_all

lemma outer_assoc:
  assumes "\<And>a b c. f (f a b) c = f a (f b c)"
  shows "outer f (outer f xs ys) zs = outer f xs (outer f ys zs)"
proof (induction xs)
  case Nil
  show ?case by simp
next
  case (Cons x xs)
  have "outer f (map (f x) ys) zs = map (f x) (outer f ys zs)"
    by (rule outer_map_left) (rule assms)
  with Cons show ?case by (simp add: outer_append)
qed

lemma length_outer [simp]: "length (outer f xs ys) = length xs * length ys"
  by (induction xs) simp_all

lemma vkron_assoc: "vkron (vkron u v) w = vkron u (vkron v w)"
  unfolding vkron_def by (rule outer_assoc) (simp add: mult.assoc)

lemma kron_assoc: "kron (kron A B) C = kron A (kron B C)"
  unfolding kron_def by (rule outer_assoc) (rule vkron_assoc)

lemma vkron_one_right [simp]: "vkron u [1] = u"
  unfolding vkron_def by (induction u) simp_all

lemma vkron_one_left [simp]: "vkron [1] u = u"
  unfolding vkron_def by (simp add: map_idI)

lemma kron_one_right [simp]: "kron A [[1]] = A"
  unfolding kron_def by (induction A) simp_all

lemma kron_one_left [simp]: "kron [[1]] A = A"
  unfolding kron_def by (simp add: map_idI)

lemma kron_power_Mat: "0 < n \<Longrightarrow> kron_power M n = Mat (kpow M n)"
proof (induction n)
  case 0
  then show ?case by simp
next
  case (Suc n)
  show ?case
  proof (cases "n = 0")
    case True
    then show ?thesis by (simp add: map_idI)
  next
    case False
    with Suc show ?thesis by simp
  qed
qed

lemma kpow_add: "kron (kpow M a) (kpow M b) = kpow M (a + b)"
proof (induction b)
  case 0
  show ?case by simp
next
  case (Suc b)
  have "kron (kpow M a) (kpow M (Suc b)) = kron (kron (kpow M a) (kpow M b)) M"
    by (simp add: kron_assoc)
  with Suc show ?case by simp
qed

lemma np_kron_power:
  assumes "0 < b"
  shows "np_kron (kron_power M r) (Mat (kpow M b)) = kron_power M (r + b)"
proof (cases "r = 0")
  case True
  with assms show ?thesis by (simp add: kron_power_Mat map_idI)
next
  case False
  with assms show ?thesis by (simp add: kron_power_Mat kpow_add)
qed

lemma is_matrix_outer:
  assumes "is_matrix r c A" and "is_matrix r' c' B"
  shows "is_matrix (r * r') (c * c') (kron A B)"
  using assms unfolding is_matrix_def kron_def vkron_def
  by (induction A arbitrary: r) (auto simp: list_all_iff)

lemma is_matrix_kpow:
  assumes "is_matrix r c M"
  shows "is_matrix (r ^ n) (c ^ n) (kpow M n)"
proof (induction n)
  case 0
  show ?case by (simp add: is_matrix_def)
next
  case (Suc n)
  from is_matrix_outer [OF Suc assms] show ?case by (simp add: mult.commute)
qed

lemma is_matrix_hadamard_base: "is_matrix 2 2 hadamard_base"
  by (simp add: is_matrix_def hadamard_base_def)

lemma n_hadamard_loop_eq:
  assumes "0 < b" and "0 \<le> e"
  shows "n_hadamard_loop (kron_power M r) (kpow M b) e = kron_power M (r + b * nat e)"
  using assms
proof (induction "nat e" arbitrary: r b e rule: less_induct)
  case less
  show ?case
  proof (cases "0 < e")
    case False
    with less.prems have "e = 0" by simp
    then show ?thesis by (subst n_hadamard_loop.simps) simp
  next
    case True
    then have smaller: "nat (e div 2) < nat e" by simp
    have nonneg: "0 \<le> e div 2" using True by simp
    have double: "kron (kpow M b) (kpow M b) = kpow M (b + b)" by (rule kpow_add)
    have bb: "0 < b + b" using less.prems by simp
    show ?thesis
    proof (cases "e mod 2 = 1")
      case True
      have "n_hadamard_loop (kron_power M r) (kpow M b) e
            = n_hadamard_loop (kron_power M (r + b)) (kpow M (b + b)) (e div 2)"
        using \<open>0 < e\<close> True less.prems
        by (subst n_hadamard_loop.simps) (simp add: np_kron_power double)
      also have "\<dots> = kron_power M (r + b + (b + b) * nat (e div 2))"
        by (rule less.hyps [OF smaller bb nonneg])
      also have "r + b + (b + b) * nat (e div 2) = r + b * nat e"
      proof -
        have "e = 2 * (e div 2) + 1" using True by presburger
        then have "nat e = 2 * nat (e div 2) + 1" using nonneg by linarith
        then show ?thesis by (simp add: algebra_simps)
      qed
      finally show ?thesis .
    next
      case False
      have "n_hadamard_loop (kron_power M r) (kpow M b) e
            = n_hadamard_loop (kron_power M r) (kpow M (b + b)) (e div 2)"
        using \<open>0 < e\<close> False
        by (subst n_hadamard_loop.simps) (simp add: double)
      also have "\<dots> = kron_power M (r + (b + b) * nat (e div 2))"
        by (rule less.hyps [OF smaller bb nonneg])
      also have "r + (b + b) * nat (e div 2) = r + b * nat e"
      proof -
        have "e = 2 * (e div 2)" using False by presburger
        then have "nat e = 2 * nat (e div 2)" using nonneg by linarith
        then show ?thesis by (simp add: algebra_simps)
      qed
      finally show ?thesis .
    qed
  qed
qed

lemma n_hadamard_eq: "0 \<le> n \<Longrightarrow> n_hadamard n = kron_power hadamard_base (nat n)"
  using n_hadamard_loop_eq [of 1 n hadamard_base 0] by (simp add: n_hadamard_def)

lemma n_hadamard_Mat: "0 < n \<Longrightarrow> n_hadamard n = Mat (kpow hadamard_base (nat n))"
  by (simp add: n_hadamard_eq kron_power_Mat)

lemma nth_outer:
  assumes "i < length xs" and "j < length ys"
  shows "outer f xs ys ! (i * length ys + j) = f (xs ! i) (ys ! j)"
  using assms
proof (induction xs arbitrary: i)
  case Nil
  then show ?case by simp
next
  case (Cons x xs)
  show ?case
  proof (cases i)
    case 0
    with Cons.prems show ?thesis by (simp add: nth_append)
  next
    case (Suc i')
    with Cons.prems have "i' < length xs" by simp
    from Cons.IH [OF this Cons.prems(2)] Suc show ?thesis
      by (simp add: nth_append add.assoc)
  qed
qed

lemma nth_outer_div_mod:
  assumes "p < length xs * length ys"
  shows "outer f xs ys ! p = f (xs ! (p div length ys)) (ys ! (p mod length ys))"
proof -
  have pos: "0 < length ys" using assms by (cases "length ys") simp_all
  have i: "p div length ys < length xs"
    using assms by (simp add: less_mult_imp_div_less)
  have j: "p mod length ys < length ys" using pos by simp
  from nth_outer [OF i j, of f] show ?thesis by simp
qed

section \<open>The diagonal of a Kronecker product\<close>

lemma is_matrix_nth: "is_matrix r c A \<Longrightarrow> i < r \<Longrightarrow> length (A ! i) = c"
  by (auto simp: is_matrix_def list_all_length)

lemma diagonal_square:
  assumes "is_matrix r r A"
  shows "diagonal A = map (\<lambda>i. A ! i ! i) [0..<r]"
proof (cases A)
  case Nil
  with assms show ?thesis by (simp add: diagonal_def is_matrix_def)
next
  case (Cons row rows)
  with assms have "length A = r" and "ncols A = r"
    by (simp_all add: is_matrix_def ncols_def)
  then show ?thesis by (simp add: diagonal_def)
qed

lemma diagonal_kron:
  assumes A: "is_matrix m m A" and B: "is_matrix k k B"
  shows "diagonal (kron A B) = vkron (diagonal A) (diagonal B)"
proof (rule nth_equalityI)
  have AB: "is_matrix (m * k) (m * k) (kron A B)"
    using A B by (rule is_matrix_outer)
  have lenA: "length A = m" and lenB: "length B = k"
    using A B by (simp_all add: is_matrix_def)
  show len: "length (diagonal (kron A B)) = length (vkron (diagonal A) (diagonal B))"
    by (simp add: diagonal_square [OF AB] diagonal_square [OF A] diagonal_square [OF B] vkron_def)
  fix p assume "p < length (diagonal (kron A B))"
  then have p: "p < m * k" by (simp add: diagonal_square [OF AB])
  then have kpos: "0 < k" by (cases k) simp_all
  define i where "i = p div k"
  define j where "j = p mod k"
  have i: "i < m" using p by (simp add: i_def less_mult_imp_div_less)
  have j: "j < k" using kpos by (simp add: j_def)
  have row: "kron A B ! p = vkron (A ! i) (B ! j)"
    using p lenA lenB unfolding kron_def i_def j_def
    by (simp add: nth_outer_div_mod)
  have lenBj: "length (B ! j) = k" using B j by (rule is_matrix_nth)
  have lenAi: "length (A ! i) = m" using A i by (rule is_matrix_nth)
  have "vkron (A ! i) (B ! j) ! p = A ! i ! i * (B ! j ! j)"
    using p lenAi lenBj unfolding vkron_def i_def j_def
    by (simp add: nth_outer_div_mod)
  moreover have "vkron (diagonal A) (diagonal B) ! p = A ! i ! i * (B ! j ! j)"
    using p i j unfolding vkron_def i_def j_def
    by (simp add: nth_outer_div_mod diagonal_square [OF A] diagonal_square [OF B])
  ultimately show "diagonal (kron A B) ! p = vkron (diagonal A) (diagonal B) ! p"
    using p row by (simp add: diagonal_square [OF AB])
qed

lemma diagonal_one [simp]: "diagonal [[1]] = [1]"
  by (simp add: diagonal_def ncols_def)

lemma diagonal_kpow:
  assumes "is_matrix r r M"
  shows "diagonal (kpow M n) = vpow (diagonal M) n"
proof (induction n)
  case 0
  show ?case by simp
next
  case (Suc n)
  have "is_matrix (r ^ n) (r ^ n) (kpow M n)" using assms by (rule is_matrix_kpow)
  from diagonal_kron [OF this assms] Suc show ?case by simp
qed

lemma map_sgn_vkron: "map sgn (vkron u v) = vkron (map sgn u) (map sgn v)"
  unfolding vkron_def by (induction u) (simp_all add: sgn_mult)

lemma map_sgn_vpow: "map sgn (vpow v n) = vpow (map sgn v) n"
  by (induction n) (simp_all add: map_sgn_vkron)

lemma length_diag_matrix [simp]: "length (diag_matrix v) = length v"
  by (simp add: diag_matrix_def)

lemma is_matrix_diag_matrix: "is_matrix (length v) (length v) (diag_matrix v)"
  by (simp add: is_matrix_def diag_matrix_def list_all_iff)

lemma nth_diag_matrix:
  "i < length v \<Longrightarrow> j < length v \<Longrightarrow> diag_matrix v ! i ! j = (if i = j then v ! i else 0)"
  by (simp add: diag_matrix_def)

lemma length_vkron [simp]: "length (vkron u v) = length u * length v"
  by (simp add: vkron_def)

lemma nth_vkron:
  "p < length u * length v \<Longrightarrow> vkron u v ! p = u ! (p div length v) * v ! (p mod length v)"
  by (simp add: vkron_def nth_outer_div_mod)

lemma nth_kron:
  "p < length A * length B \<Longrightarrow> kron A B ! p = vkron (A ! (p div length B)) (B ! (p mod length B))"
  by (simp add: kron_def nth_outer_div_mod)

lemma div_mod_eq_iff:
  fixes p q k :: nat
  shows "p = q \<longleftrightarrow> p div k = q div k \<and> p mod k = q mod k"
  by (metis div_mult_mod_eq)

lemma diag_matrix_vkron: "diag_matrix (vkron u v) = kron (diag_matrix u) (diag_matrix v)"
proof (rule nth_equalityI)
  show "length (diag_matrix (vkron u v)) = length (kron (diag_matrix u) (diag_matrix v))"
    by (simp add: kron_def)
next
  fix p assume "p < length (diag_matrix (vkron u v))"
  then have p: "p < length u * length v" by simp
  then have vpos: "0 < length v" by (cases "length v") simp_all
  let ?i = "p div length v" and ?j = "p mod length v"
  have i: "?i < length u" using p by (simp add: less_mult_imp_div_less)
  have j: "?j < length v" using vpos by simp
  have row: "kron (diag_matrix u) (diag_matrix v) ! p = vkron (diag_matrix u ! ?i) (diag_matrix v ! ?j)"
    using p by (simp add: nth_kron)
  have leni: "length (diag_matrix u ! ?i) = length u"
    using is_matrix_diag_matrix i by (rule is_matrix_nth)
  have lenj: "length (diag_matrix v ! ?j) = length v"
    using is_matrix_diag_matrix j by (rule is_matrix_nth)
  have lenl: "length (diag_matrix (vkron u v) ! p) = length u * length v"
    using is_matrix_nth [OF is_matrix_diag_matrix, of p "vkron u v"] p by simp
  show "diag_matrix (vkron u v) ! p = kron (diag_matrix u) (diag_matrix v) ! p"
  proof (rule nth_equalityI)
    show "length (diag_matrix (vkron u v) ! p) = length (kron (diag_matrix u) (diag_matrix v) ! p)"
      by (simp add: row leni lenj lenl)
  next
    fix q assume "q < length (diag_matrix (vkron u v) ! p)"
    then have q: "q < length u * length v" by (simp add: lenl)
    let ?i' = "q div length v" and ?j' = "q mod length v"
    have i': "?i' < length u" using q by (simp add: less_mult_imp_div_less)
    have j': "?j' < length v" using vpos by simp
    have "vkron (diag_matrix u ! ?i) (diag_matrix v ! ?j) ! q
          = diag_matrix u ! ?i ! ?i' * (diag_matrix v ! ?j ! ?j')"
      using q by (simp add: nth_vkron leni lenj)
    also have "\<dots> = (if ?i = ?i' then u ! ?i else 0) * (if ?j = ?j' then v ! ?j else 0)"
      by (simp add: nth_diag_matrix i j i' j')
    also have "\<dots> = (if p = q then vkron u v ! p else 0)"
      using p by (subst div_mod_eq_iff [of p q "length v"]) (simp add: nth_vkron)
    also have "\<dots> = diag_matrix (vkron u v) ! p ! q"
      using p q by (simp add: nth_diag_matrix)
    finally show "diag_matrix (vkron u v) ! p ! q = kron (diag_matrix u) (diag_matrix v) ! p ! q"
      by (simp add: row)
  qed
qed

lemma diag_matrix_one [simp]: "diag_matrix [1] = [[1]]"
  by (simp add: diag_matrix_def)

lemma diag_matrix_vpow: "diag_matrix (vpow v n) = kpow (diag_matrix v) n"
  by (induction n) (simp_all add: diag_matrix_vkron)

lemma length_vpow: "length (vpow v n) = length v ^ n"
  by (induction n) simp_all

lemma length_vpow_pair [simp]: "length (vpow [a, b] n) = 2 ^ n"
  by (simp add: length_vpow numeral_2_eq_2)

lemma popcount_0 [simp]: "popcount 0 = 0"
  by (simp add: popcount.simps)

lemma nth_vpow_sign:
  "k < 2 ^ n \<Longrightarrow> vpow [1, - 1] n ! k = (- 1) ^ popcount k"
proof (induction n arbitrary: k)
  case 0
  then show ?case by simp
next
  case (Suc n)
  from Suc.prems have half: "k div 2 < 2 ^ n" by simp
  have two: "length [1, - 1 :: real] = 2" by simp
  have "k < length (vpow [1, - 1 :: real] n) * length [1, - 1 :: real]"
    using Suc.prems by (simp add: mult.commute)
  then have "vkron (vpow [1, - 1] n) [1, - 1] ! k
             = vpow [1, - 1] n ! (k div length [1, - 1 :: real]) * [1, - 1] ! (k mod length [1, - 1 :: real])"
    by (rule nth_vkron)
  then have "vpow [1, - 1] (Suc n) ! k = vpow [1, - 1] n ! (k div 2) * [1, - 1 :: real] ! (k mod 2)"
    unfolding two by simp
  also have "\<dots> = (- 1) ^ popcount (k div 2) * (- 1) ^ (k mod 2)"
  proof -
    have "[1, - 1 :: real] ! (k mod 2) = (- 1) ^ (k mod 2)"
      by (cases "even k") (simp_all add: mod2_eq_if)
    with Suc.IH [OF half] show ?thesis by simp
  qed
  also have "\<dots> = (- 1) ^ popcount k"
  proof (cases "k = 0")
    case True
    then show ?thesis by simp
  next
    case False
    then have "popcount k = k mod 2 + popcount (k div 2)"
      by (subst popcount.simps) simp
    then show ?thesis by (simp add: power_add mult.commute)
  qed
  finally show ?case .
qed

lemma hadamard_diagonal_sign: "map sgn (diagonal hadamard_base) = [1, - 1]"
  by (simp add: diagonal_def ncols_def hadamard_base_def sgn_if)

lemma n_z_n_hadamard:
  assumes "1 \<le> n"
  shows "n_z (n_hadamard n) = Inr (kpow pauli_z (nat n))"
proof -
  have "n_z (n_hadamard n) = Inr (diag_matrix (map sgn (diagonal (kpow hadamard_base (nat n)))))"
    using assms by (simp add: n_hadamard_Mat)
  also have "map sgn (diagonal (kpow hadamard_base (nat n))) = vpow [1, - 1] (nat n)"
    by (simp add: diagonal_kpow [OF is_matrix_hadamard_base] map_sgn_vpow hadamard_diagonal_sign)
  finally show ?thesis by (simp add: diag_matrix_vpow pauli_z_def)
qed

section \<open>Facts about \<^verbatim>\<open>_modified_LHC\<close>\<close>

lemma length_set_column: "length (set_column d col S) = min (length S) (length col)"
  by (simp add: set_column_def)

lemma nth_set_column:
  "s < length S \<Longrightarrow> s < length col \<Longrightarrow> set_column d col S ! s = (S ! s)[d := col ! s]"
  by (simp add: set_column_def)

lemma is_matrix_set_column:
  assumes "is_matrix r c S" and "length col = r"
  shows "is_matrix r c (set_column d col S)"
  using assms
  by (auto simp: is_matrix_def set_column_def list_all_length)

lemma is_permutation_mset:
  assumes "is_permutation p m"
  shows "mset p = mset [0..<m]"
proof -
  from assms have len: "length p = m" and dist: "distinct p" and sub: "set p \<subseteq> {0..<m}"
    by (auto simp: is_permutation_def list_all_iff)
  have "card (set p) = m" using len dist by (simp add: distinct_card)
  with sub have "set p = {0..<m}" by (simp add: card_subset_eq)
  moreover from dist have "mset_set (set p) = mset p" by (rule mset_set_set)
  ultimately show ?thesis by simp
qed

lemma mset_shuffle:
  assumes "is_permutation p (length xs)"
  shows "mset (shuffle p xs) = mset xs"
proof -
  have "mset (shuffle p xs) = image_mset (\<lambda>k. xs ! k) (mset p)"
    by (simp add: shuffle_def)
  also have "\<dots> = image_mset (\<lambda>k. xs ! k) (mset [0..<length xs])"
    by (simp only: is_permutation_mset [OF assms])
  also have "\<dots> = mset (map (\<lambda>k. xs ! k) [0..<length xs])" by simp
  also have "\<dots> = mset xs" by (simp add: map_nth)
  finally show ?thesis .
qed

lemma length_shuffle [simp]: "length (shuffle p xs) = length p"
  by (simp add: shuffle_def)

lemma lhc_bins_after_Suc:
  "lhc_bins_after rng B (Suc k) = shuffle (shuffle_perm rng k) (lhc_bins_after rng B k)"
  by (simp add: lhc_bins_after_def)

lemma lhc_bins_after_0 [simp]: "lhc_bins_after rng B 0 = B"
  by (simp add: lhc_bins_after_def)

lemma lhc_bins_after_mset:
  assumes "\<forall>d < k. is_permutation (shuffle_perm rng d) (length B)"
  shows "mset (lhc_bins_after rng B k) = mset B \<and> length (lhc_bins_after rng B k) = length B"
  using assms
proof (induction k)
  case 0
  show ?case by simp
next
  case (Suc k)
  then have IH: "mset (lhc_bins_after rng B k) = mset B"
    and len: "length (lhc_bins_after rng B k) = length B"
    and perm: "is_permutation (shuffle_perm rng k) (length B)"
    by simp_all
  from perm have "is_permutation (shuffle_perm rng k) (length (lhc_bins_after rng B k))"
    by (simp add: len)
  then have "mset (lhc_bins_after rng B (Suc k)) = mset (lhc_bins_after rng B k)"
    unfolding lhc_bins_after_Suc by (rule mset_shuffle)
  moreover have "length (lhc_bins_after rng B (Suc k)) = length B"
    using perm by (simp add: lhc_bins_after_Suc is_permutation_def)
  ultimately show ?case using IH by simp
qed

lemma snd_fold_lhc_step:
  "snd (fold (lhc_step rng bs ns) [0..<k] (S, B)) = lhc_bins_after rng B k"
  by (induction k) (simp_all add: lhc_step_def Let_def lhc_bins_after_Suc)

lemma length_lhc_all_bins: "length (lhc_all_bins ns nd) = lhc_n_passes ns nd * nd"
  by (simp add: lhc_all_bins_def length_concat sum_list_replicate)

lemma lhc_passes_cover: "0 < nd \<Longrightarrow> ns \<le> lhc_n_passes ns nd * nd"
proof -
  assume pos: "0 < nd"
  have "ns + nd - 1 = (ns + nd - 1) div nd * nd + (ns + nd - 1) mod nd" by simp
  moreover have "(ns + nd - 1) mod nd < nd" using pos by simp
  ultimately have "ns + nd - 1 \<le> (ns + nd - 1) div nd * nd + (nd - 1)" by linarith
  then show ?thesis using pos by (simp add: lhc_n_passes_def)
qed

lemma set_lhc_all_bins: "set (lhc_all_bins ns nd) \<subseteq> {0..<nd}"
  by (auto simp: lhc_all_bins_def)

lemma count_lhc_all_bins:
  "count (mset (lhc_all_bins ns nd)) b = (if b < nd then lhc_n_passes ns nd else 0)"
proof -
  have "count (mset (concat (replicate k [0..<nd]))) b = (if b < nd then k else 0)" for k
    by (induction k) (simp_all add: count_mset_set')
  then show ?thesis by (simp add: lhc_all_bins_def)
qed


lemma lhc_step_eq:
  "lhc_step rng bs ns d (S, lhc_bins_after rng B d)
   = (set_column d (lhc_column rng bs ns B d) S, lhc_bins_after rng B (Suc d))"
  by (simp add: lhc_step_def Let_def lhc_column_def lhc_bins_after_Suc)

lemma length_lhc_column:
  "ns \<le> length (lhc_bins_after rng B (Suc d)) \<Longrightarrow> length (lhc_column rng bs ns B d) = ns"
  by (simp add: lhc_column_def)

lemma nth_lhc_column:
  "ns \<le> length (lhc_bins_after rng B (Suc d)) \<Longrightarrow> s < ns \<Longrightarrow>
   lhc_column rng bs ns B d ! s
   = (real (lhc_bins_after rng B (Suc d) ! s) + random_offset rng d s) * bs"
  by (simp add: lhc_column_def)

lemma fold_lhc_step:
  assumes S: "is_matrix ns n S" and k: "k \<le> n"
    and lens: "\<forall>d < k. ns \<le> length (lhc_bins_after rng B (Suc d))"
  shows "\<exists>S'. fold (lhc_step rng bs ns) [0..<k] (S, B) = (S', lhc_bins_after rng B k)
           \<and> is_matrix ns n S'
           \<and> (\<forall>s < ns. \<forall>d < k.
                 S' ! s ! d = (real (lhc_bins_after rng B (Suc d) ! s) + random_offset rng d s) * bs)"
  using k lens
proof (induction k)
  case 0
  with S show ?case by simp
next
  case (Suc k)
  then obtain S' where run: "fold (lhc_step rng bs ns) [0..<k] (S, B) = (S', lhc_bins_after rng B k)"
    and shape: "is_matrix ns n S'"
    and old: "\<forall>s < ns. \<forall>d < k.
                 S' ! s ! d = (real (lhc_bins_after rng B (Suc d) ! s) + random_offset rng d s) * bs"
    by auto
  let ?col = "lhc_column rng bs ns B k"
  let ?S = "set_column k ?col S'"
  from Suc.prems have len: "ns \<le> length (lhc_bins_after rng B (Suc k))" by simp
  have lcol: "length ?col = ns" using len by (rule length_lhc_column)
  have run': "fold (lhc_step rng bs ns) [0..<Suc k] (S, B) = (?S, lhc_bins_after rng B (Suc k))"
    by (simp add: run lhc_step_eq)
  have shape': "is_matrix ns n ?S" using shape lcol by (rule is_matrix_set_column)
  have entries: "?S ! s ! d = (real (lhc_bins_after rng B (Suc d) ! s) + random_offset rng d s) * bs"
    if s: "s < ns" and d: "d < Suc k" for s d
  proof -
    have lenS: "length S' = ns" using shape by (simp add: is_matrix_def)
    have row: "?S ! s = (S' ! s)[k := ?col ! s]"
      using s lenS lcol by (simp add: nth_set_column)
    have lrow: "length (S' ! s) = n" using shape s by (rule is_matrix_nth)
    show ?thesis
    proof (cases "d = k")
      case True
      with Suc.prems(1) lrow have "?S ! s ! d = ?col ! s" by (simp add: row)
      with True len s show ?thesis by (simp add: nth_lhc_column)
    next
      case False
      with d have "d < k" by simp
      with old s have "S' ! s ! d = (real (lhc_bins_after rng B (Suc d) ! s) + random_offset rng d s) * bs"
        by simp
      with False show ?thesis by (simp add: row)
    qed
  qed
  from run' shape' entries show ?case by simp
qed

lemma lhc_random_okD:
  assumes "lhc_random_ok rng n ns m" and "d < n"
  shows "is_permutation (shuffle_perm rng d) m"
    and "s < ns \<Longrightarrow> 0 \<le> random_offset rng d s \<and> random_offset rng d s < 1"
  using assms by (auto simp: lhc_random_ok_def list_all_iff)

lemma lhc_bins_after_props:
  assumes ok: "lhc_random_ok rng n ns (length (lhc_all_bins ns nd))" and k: "k \<le> n"
  shows "mset (lhc_bins_after rng (lhc_all_bins ns nd) k) = mset (lhc_all_bins ns nd)"
    and "length (lhc_bins_after rng (lhc_all_bins ns nd) k) = length (lhc_all_bins ns nd)"
proof -
  have "\<forall>d < k. is_permutation (shuffle_perm rng d) (length (lhc_all_bins ns nd))"
    using lhc_random_okD(1) [OF ok] k by simp
  from lhc_bins_after_mset [OF this]
  show "mset (lhc_bins_after rng (lhc_all_bins ns nd) k) = mset (lhc_all_bins ns nd)"
    and "length (lhc_bins_after rng (lhc_all_bins ns nd) k) = length (lhc_all_bins ns nd)"
    by simp_all
qed

lemma lhc_chosen_bins_props:
  assumes pos: "0 < nd" and ok: "lhc_random_ok rng n ns (length (lhc_all_bins ns nd))"
    and d: "d < n"
  shows "length (lhc_chosen_bins rng ns nd d) = ns"
    and "\<forall>b \<in> set (lhc_chosen_bins rng ns nd d). b < nd"
    and "count (mset (lhc_chosen_bins rng ns nd d)) b \<le> lhc_n_passes ns nd"
    and "ns \<le> nd \<Longrightarrow> distinct (lhc_chosen_bins rng ns nd d)"
proof -
  let ?B = "lhc_all_bins ns nd"
  let ?bins = "lhc_bins_after rng ?B (Suc d)"
  from d have le: "Suc d \<le> n" by simp
  have ms: "mset ?bins = mset ?B" and len: "length ?bins = length ?B"
    using lhc_bins_after_props [OF ok le] by simp_all
  have cover: "ns \<le> length ?bins"
    using lhc_passes_cover [OF pos, of ns] by (simp add: len length_lhc_all_bins)
  show "length (lhc_chosen_bins rng ns nd d) = ns"
    using cover by (simp add: lhc_chosen_bins_def)
  have "set ?bins = set ?B" using ms by (rule mset_eq_setD)
  then have "set ?bins \<subseteq> {0..<nd}" using set_lhc_all_bins [of ns nd] by simp
  moreover have "set (lhc_chosen_bins rng ns nd d) \<subseteq> set ?bins"
    by (simp add: lhc_chosen_bins_def set_take_subset)
  ultimately show "\<forall>b \<in> set (lhc_chosen_bins rng ns nd d). b < nd" by auto
  have "mset ?bins = mset (take ns ?bins) + mset (drop ns ?bins)"
    by (metis append_take_drop_id mset_append)
  then have "count (mset (take ns ?bins)) b \<le> count (mset ?bins) b" by simp
  also have "\<dots> \<le> lhc_n_passes ns nd" by (simp add: ms count_lhc_all_bins)
  finally show "count (mset (lhc_chosen_bins rng ns nd d)) b \<le> lhc_n_passes ns nd"
    by (simp add: lhc_chosen_bins_def)
  show "distinct (lhc_chosen_bins rng ns nd d)" if "ns \<le> nd"
  proof -
    have "ns + nd - 1 < 2 * nd" using that pos by simp
    then have "lhc_n_passes ns nd < 2"
      unfolding lhc_n_passes_def using pos by (simp add: less_mult_imp_div_less mult.commute)
    then consider "lhc_n_passes ns nd = 0" | "lhc_n_passes ns nd = 1" by linarith
    then have "distinct ?B" by cases (simp_all add: lhc_all_bins_def)
    then have "distinct ?bins" using ms by (metis mset_eq_imp_distinct_iff)
    then show ?thesis by (simp add: lhc_chosen_bins_def)
  qed
qed

lemma modified_LHC_result:
  assumes pos: "0 < nd" and ok: "lhc_random_ok rng n ns (length (lhc_all_bins ns nd))"
    and uninit: "is_matrix ns n uninit"
  shows "\<exists>S. modified_LHC n ns nd rng uninit = Inr S \<and> is_matrix ns n S
           \<and> (\<forall>s < ns. \<forall>d < n.
                 S ! s ! d = (real (lhc_chosen_bins rng ns nd d ! s) + random_offset rng d s)
                               * (2 * pi / real nd))"
proof -
  let ?B = "lhc_all_bins ns nd"
  have lens: "\<forall>d < n. ns \<le> length (lhc_bins_after rng ?B (Suc d))"
  proof (intro allI impI)
    fix d assume "d < n"
    then have "Suc d \<le> n" by simp
    from lhc_bins_after_props(2) [OF ok this] lhc_passes_cover [OF pos, of ns]
    show "ns \<le> length (lhc_bins_after rng ?B (Suc d))" by (simp add: length_lhc_all_bins)
  qed
  from fold_lhc_step [OF uninit order_refl lens, of "2 * pi / real nd"]
  obtain S where run: "fold (lhc_step rng (2 * pi / real nd) ns) [0..<n] (uninit, ?B)
                       = (S, lhc_bins_after rng ?B n)"
    and shape: "is_matrix ns n S"
    and entries: "\<forall>s < ns. \<forall>d < n.
       S ! s ! d = (real (lhc_bins_after rng ?B (Suc d) ! s) + random_offset rng d s) * (2 * pi / real nd)"
    by blast
  have "modified_LHC n ns nd rng uninit = Inr S"
    using pos by (simp add: modified_LHC_def Let_def run)
  moreover have "\<forall>s < ns. \<forall>d < n.
     S ! s ! d = (real (lhc_chosen_bins rng ns nd d ! s) + random_offset rng d s) * (2 * pi / real nd)"
    using entries by (simp add: lhc_chosen_bins_def)
  ultimately show ?thesis using shape by blast
qed

lemma lhc_entry_bounds:
  fixes off :: real
  assumes pos: "0 < nd" and b: "b < nd" and off: "0 \<le> off" "off < 1"
  shows "0 \<le> (real b + off) * (2 * pi / real nd)"
    and "(real b + off) * (2 * pi / real nd) < 2 * pi"
proof -
  have ndpos: "0 < real nd" using pos by simp
  show "0 \<le> (real b + off) * (2 * pi / real nd)"
    using off(1) ndpos by simp
  have "real b + 1 \<le> real nd" using b by linarith
  with off(2) have lt: "real b + off < real nd" by linarith
  have "(real b + off) * (2 * pi / real nd) < real nd * (2 * pi / real nd)"
    using lt ndpos by (intro mult_strict_right_mono) simp_all
  also have "\<dots> = 2 * pi" using ndpos by simp
  finally show "(real b + off) * (2 * pi / real nd) < 2 * pi" .
qed

lemma in_parameter_spaceI:
  assumes "is_matrix r c S" and "\<And>s d. s < r \<Longrightarrow> d < c \<Longrightarrow> 0 \<le> S ! s ! d \<and> S ! s ! d < 2 * pi"
  shows "in_parameter_space S"
  using assms unfolding in_parameter_space_def is_matrix_def list_all_length
  by simp

lemma modified_LHC_in_parameter_space:
  assumes pos: "0 < nd" and ok: "lhc_random_ok rng n ns (length (lhc_all_bins ns nd))"
    and uninit: "is_matrix ns n uninit"
  shows "\<exists>S. modified_LHC n ns nd rng uninit = Inr S \<and> is_matrix ns n S \<and> in_parameter_space S"
proof -
  from modified_LHC_result [OF pos ok uninit]
  obtain S where run: "modified_LHC n ns nd rng uninit = Inr S" and shape: "is_matrix ns n S"
    and entries: "\<forall>s < ns. \<forall>d < n.
       S ! s ! d = (real (lhc_chosen_bins rng ns nd d ! s) + random_offset rng d s) * (2 * pi / real nd)"
    by blast
  have "in_parameter_space S"
  proof (rule in_parameter_spaceI [OF shape])
    fix s d assume s: "s < ns" and d: "d < n"
    let ?bins = "lhc_chosen_bins rng ns nd d"
    have "length ?bins = ns" using pos ok d by (rule lhc_chosen_bins_props(1))
    with s have "?bins ! s \<in> set ?bins" by simp
    with lhc_chosen_bins_props(2) [OF pos ok d] have b: "?bins ! s < nd" by blast
    from lhc_random_okD(2) [OF ok d s]
    have off: "0 \<le> random_offset rng d s" "random_offset rng d s < 1" by simp_all
    from entries s d have "S ! s ! d = (real (?bins ! s) + random_offset rng d s) * (2 * pi / real nd)"
      by simp
    with lhc_entry_bounds [OF pos b off] show "0 \<le> S ! s ! d \<and> S ! s ! d < 2 * pi" by simp
  qed
  with run shape show ?thesis by blast
qed

lemma sobol_sampling_in_parameter_space:
  assumes "unit_interval_matrix ns n (sobol_random n ns)"
  shows "is_matrix ns n (sobol_sampling n ns sobol_random)"
    and "in_parameter_space (sobol_sampling n ns sobol_random)"
proof -
  from assms show "is_matrix ns n (sobol_sampling n ns sobol_random)"
    by (simp add: unit_interval_matrix_def is_matrix_def sobol_sampling_def list_all_iff)
  have "0 \<le> 2 * pi * u \<and> 2 * pi * u < 2 * pi" if "0 \<le> u \<and> u < 1" for u :: real
    using that pi_gt_zero by simp
  with assms show "in_parameter_space (sobol_sampling n ns sobol_random)"
    by (simp add: unit_interval_matrix_def in_parameter_space_def sobol_sampling_def list_all_iff)
qed

section \<open>Facts about \<^verbatim>\<open>_sample_ad_hoc_data\<close>\<close>

lemma flat_index_bound:
  fixes a c m :: nat
  assumes "\<forall>d \<in> set ds. d < c" and "a < c ^ m"
  shows "foldl (\<lambda>acc d. acc * c + d) a ds < c ^ (m + length ds)"
  using assms
proof (induction ds arbitrary: a m)
  case Nil
  then show ?case by simp
next
  case (Cons d ds)
  from Cons.prems have d: "d < c" and a: "Suc a \<le> c ^ m" by simp_all
  have "a * c + d < Suc a * c" using d by simp
  also have "\<dots> \<le> c ^ m * c" using a by (rule mult_le_mono1)
  finally have "a * c + d < c ^ Suc m" by (simp add: mult.commute)
  from Cons.IH [OF _ this] Cons.prems(1) show ?case by simp
qed

lemma grid_at_in_flat:
  assumes "grid_ok n g" and "choice_ok choice g"
  shows "grid_at g (draws_at choice n pos) \<in> set (flat g)"
proof -
  have "\<forall>d \<in> set (draws_at choice n pos). d < shape0 g"
    using assms(2) by (auto simp: draws_at_def choice_ok_def)
  from flat_index_bound [OF this, of 0 0]
  have "foldl (\<lambda>acc d. acc * shape0 g + d) 0 (draws_at choice n pos) < shape0 g ^ n"
    by (simp add: draws_at_def)
  with assms(1) show ?thesis by (simp add: grid_at_def grid_ok_def)
qed

lemma sample_loop_absent:
  assumes ok: "grid_ok n g" and ch: "choice_ok choice g"
    and absent: "label \<notin> set (flat g)" and short: "length acc < num_samples"
  shows "sample_loop fuel g xvals num_samples n label choice pos acc = None"
proof (induction fuel arbitrary: pos)
  case 0
  from short show ?case by simp
next
  case (Suc fuel)
  have pos: "shape0 g \<noteq> 0" using ch by (auto simp: choice_ok_def)
  have "grid_at g (draws_at choice n pos) \<noteq> label"
    using grid_at_in_flat [OF ok ch, of pos] absent by auto
  with short pos Suc show ?case by (simp add: Let_def)
qed

lemma sample_loop_result:
  assumes "sample_loop fuel g xvals num_samples n label choice pos acc = Some (Inr (acc', pos'))"
    and "length acc \<le> num_samples"
  shows "length acc' = num_samples
         \<and> (\<forall>row \<in> set acc'. row \<in> set acc
               \<or> (\<exists>p. row = map (\<lambda>d. xvals ! d) (draws_at choice n p)
                      \<and> grid_at g (draws_at choice n p) = label))"
  using assms
proof (induction fuel arbitrary: pos acc)
  case 0
  then show ?case by (auto split: if_splits)
next
  case (Suc fuel)
  show ?case
  proof (cases "length acc < num_samples")
    case False
    with Suc.prems show ?thesis by auto
  next
    case True
    let ?draws = "draws_at choice n pos"
    show ?thesis
    proof (cases "grid_at g ?draws = label")
      case hit: True
      with True Suc.prems(1) have
        run: "sample_loop fuel g xvals num_samples n label choice (pos + n)
                (acc @ [map (\<lambda>d. xvals ! d) ?draws]) = Some (Inr (acc', pos'))"
        by (simp add: Let_def split: if_splits)
      from True have "length (acc @ [map (\<lambda>d. xvals ! d) ?draws]) \<le> num_samples" by simp
      from Suc.IH [OF run this] hit show ?thesis by auto
    next
      case miss: False
      with True Suc.prems(1) have
        run: "sample_loop fuel g xvals num_samples n label choice (pos + n) acc
                = Some (Inr (acc', pos'))"
        by (simp add: Let_def split: if_splits)
      from Suc.IH [OF run Suc.prems(2)] show ?thesis .
    qed
  qed
qed

lemma sample_loop_done:
  "num_samples \<le> length acc \<Longrightarrow>
   sample_loop fuel g xvals num_samples n label choice pos acc = Some (Inr (acc, pos))"
  by (cases fuel) simp_all

lemma draws_in_xvals:
  assumes "choice_ok choice g" and "shape0 g \<le> length xvals"
  shows "list_all (\<lambda>d. d < length xvals) (draws_at choice n pos)"
  using assms by (auto simp: list_all_iff draws_at_def choice_ok_def intro: less_le_trans)

lemma sample_loop_step:
  assumes ch: "choice_ok choice g" and xv: "shape0 g \<le> length xvals"
    and short: "length acc < num_samples"
  shows "sample_loop (Suc fuel) g xvals num_samples n label choice (j * n) acc
         = sample_loop fuel g xvals num_samples n label choice (Suc j * n)
             (if hit g choice n label j
              then acc @ [map (\<lambda>d. xvals ! d) (draws_at choice n (j * n))] else acc)"
proof -
  have pos: "shape0 g \<noteq> 0" using ch by (auto simp: choice_ok_def)
  from draws_in_xvals [OF ch xv, of n "j * n"] short pos show ?thesis
    by (simp add: Let_def hit_def add.commute)
qed

lemma sample_loop_advance:
  assumes ch: "choice_ok choice g" and xv: "shape0 g \<le> length xvals"
    and short: "length acc < num_samples"
    and hitk: "hit g choice n label k" and jk: "j \<le> k"
  shows "\<exists>F j' acc'. length acc' = Suc (length acc)
           \<and> (\<forall>fuel. sample_loop (F + fuel) g xvals num_samples n label choice (j * n) acc
                      = sample_loop fuel g xvals num_samples n label choice (j' * n) acc')"
  using jk
proof (induction "k - j" arbitrary: j)
  case 0
  then have "j = k" by simp
  with hitk have h: "hit g choice n label j" by simp
  let ?acc = "acc @ [map (\<lambda>d. xvals ! d) (draws_at choice n (j * n))]"
  have "\<forall>fuel. sample_loop (Suc 0 + fuel) g xvals num_samples n label choice (j * n) acc
                = sample_loop fuel g xvals num_samples n label choice (Suc j * n) ?acc"
    using sample_loop_step [OF ch xv short, of _ n label j] h by simp
  moreover have "length ?acc = Suc (length acc)" by simp
  ultimately show ?case by blast
next
  case (Suc m)
  show ?case
  proof (cases "hit g choice n label j")
    case True
    let ?acc = "acc @ [map (\<lambda>d. xvals ! d) (draws_at choice n (j * n))]"
    have "\<forall>fuel. sample_loop (Suc 0 + fuel) g xvals num_samples n label choice (j * n) acc
                  = sample_loop fuel g xvals num_samples n label choice (Suc j * n) ?acc"
      using sample_loop_step [OF ch xv short, of _ n label j] True by simp
    moreover have "length ?acc = Suc (length acc)" by simp
    ultimately show ?thesis by blast
  next
    case False
    from Suc.hyps(2) have m: "m = k - Suc j" and le: "Suc j \<le> k" by simp_all
    from Suc.hyps(1) [OF m le] obtain F j' acc' where
      len: "length acc' = Suc (length acc)"
      and run: "\<forall>fuel. sample_loop (F + fuel) g xvals num_samples n label choice (Suc j * n) acc
                       = sample_loop fuel g xvals num_samples n label choice (j' * n) acc'"
      by blast
    have "sample_loop (Suc F + fuel) g xvals num_samples n label choice (j * n) acc
          = sample_loop fuel g xvals num_samples n label choice (j' * n) acc'" for fuel
      using sample_loop_step [OF ch xv short, of "F + fuel" n label j] False run by simp
    with len show ?thesis by blast
  qed
qed

lemma sample_loop_terminates:
  assumes ch: "choice_ok choice g" and xv: "shape0 g \<le> length xvals"
    and forever: "hits_forever g choice n label"
  shows "\<exists>F acc' j'. \<forall>fuel.
           sample_loop (F + fuel) g xvals num_samples n label choice (j * n) acc
           = Some (Inr (acc', j' * n))"
proof (induction "num_samples - length acc" arbitrary: acc j)
  case 0
  then have "num_samples \<le> length acc" by simp
  then have "\<forall>fuel. sample_loop (0 + fuel) g xvals num_samples n label choice (j * n) acc
                    = Some (Inr (acc, j * n))"
    by (simp add: sample_loop_done)
  then show ?case by blast
next
  case (Suc m)
  then have short: "length acc < num_samples" by simp
  from forever obtain k where "j \<le> k" and "hit g choice n label k"
    by (auto simp: hits_forever_def)
  from sample_loop_advance [OF ch xv short this(2) this(1)] obtain F1 j1 acc1 where
    len: "length acc1 = Suc (length acc)"
    and run1: "\<forall>fuel. sample_loop (F1 + fuel) g xvals num_samples n label choice (j * n) acc
                      = sample_loop fuel g xvals num_samples n label choice (j1 * n) acc1"
    by blast
  from Suc.hyps(2) len have "m = num_samples - length acc1" by simp
  from Suc.hyps(1) [OF this] obtain F2 acc' j' where
    run2: "\<forall>fuel. sample_loop (F2 + fuel) g xvals num_samples n label choice (j1 * n) acc1
                  = Some (Inr (acc', j' * n))"
    by blast
  have "sample_loop ((F1 + F2) + fuel) g xvals num_samples n label choice (j * n) acc
        = Some (Inr (acc', j' * n))" for fuel
    using run1 run2 by (simp add: add.assoc)
  then show ?case by blast
qed

lemma length_draws_at [simp]: "length (draws_at choice n pos) = n"
  by (simp add: draws_at_def)

lemma sample_ad_hoc_data_returns:
  assumes ch: "choice_ok choice g" and xv: "shape0 g \<le> length xvals"
    and plus: "hits_forever g choice n 1" and minus: "hits_forever g choice n (- 1)"
  shows "\<exists>fuel samples. sample_ad_hoc_data fuel g xvals num_samples n choice
           = Some (Inr (samples, replicate num_samples 0 @ replicate num_samples 1))"
proof -
  from sample_loop_terminates [OF ch xv plus, of num_samples 0 "[]"]
  obtain F1 a j1 where
    run1: "\<forall>fuel. sample_loop (F1 + fuel) g xvals num_samples n 1 choice 0 [] = Some (Inr (a, j1 * n))"
    by auto
  from sample_loop_terminates [OF ch xv minus, of num_samples j1 "[]"]
  obtain F2 b j2 where
    run2: "\<forall>fuel. sample_loop (F2 + fuel) g xvals num_samples n (- 1) choice (j1 * n) []
                  = Some (Inr (b, j2 * n))"
    by auto
  from run1 have r1: "sample_loop (F1 + F2) g xvals num_samples n 1 choice 0 [] = Some (Inr (a, j1 * n))"
    by simp
  from run2 have "sample_loop (F2 + F1) g xvals num_samples n (- 1) choice (j1 * n) []
                  = Some (Inr (b, j2 * n))"
    by simp
  then have r2: "sample_loop (F1 + F2) g xvals num_samples n (- 1) choice (j1 * n) []
                  = Some (Inr (b, j2 * n))"
    by (simp add: add.commute)
  have "sample_ad_hoc_data (F1 + F2) g xvals num_samples n choice
        = Some (Inr (a @ b, replicate num_samples 0 @ replicate num_samples 1))"
    by (simp add: sample_ad_hoc_data_def r1 r2)
  then show ?thesis by blast
qed

lemma sample_loop_no_error:
  assumes ch: "choice_ok choice g" and xv: "shape0 g \<le> length xvals"
  shows "sample_loop fuel g xvals num_samples n label choice pos acc \<noteq> Some (Inl e)"
proof (induction fuel arbitrary: pos acc)
  case 0
  show ?case by simp
next
  case (Suc fuel)
  have pos: "shape0 g \<noteq> 0" using ch by (auto simp: choice_ok_def)
  from draws_in_xvals [OF ch xv, of n pos] pos Suc show ?case
    by (simp add: Let_def)
qed

lemma sample_ad_hoc_data_never_returns:
  assumes ok: "grid_ok n g" and ch: "choice_ok choice g" and xv: "shape0 g \<le> length xvals"
    and num: "1 \<le> num_samples"
    and absent: "1 \<notin> set (flat g) \<or> - 1 \<notin> set (flat g)"
  shows "sample_ad_hoc_data fuel g xvals num_samples n choice = None"
proof -
  from num have short: "length ([] :: vec list) < num_samples" by simp
  show ?thesis
  proof (cases "1 \<in> set (flat g)")
    case False
    from sample_loop_absent [OF ok ch False short]
    show ?thesis by (simp add: sample_ad_hoc_data_def)
  next
    case True
    with absent have "- 1 \<notin> set (flat g)" by simp
    from sample_loop_absent [OF ok ch this short]
    have second: "sample_loop fuel g xvals num_samples n (- 1) choice pos [] = None" for pos .
    show ?thesis
    proof (cases "sample_loop fuel g xvals num_samples n 1 choice 0 []")
      case None
      then show ?thesis by (simp add: sample_ad_hoc_data_def)
    next
      case (Some r)
      show ?thesis
      proof (cases r)
        case (Inl e)
        with Some sample_loop_no_error [OF ch xv, of fuel num_samples n 1 0 "[]" e]
        show ?thesis by simp
      next
        case (Inr ap)
        with Some second [of "snd ap"] show ?thesis
          by (cases ap) (simp add: sample_ad_hoc_data_def)
      qed
    qed
  qed
qed

lemma sample_ad_hoc_data_result:
  assumes run: "sample_ad_hoc_data fuel g xvals num_samples n choice = Some (Inr (samples, labels))"
  shows "labels = replicate num_samples 0 @ replicate num_samples 1
         \<and> length samples = 2 * num_samples
         \<and> (\<forall>i < 2 * num_samples. length (samples ! i) = n
               \<and> (\<exists>p. samples ! i = map (\<lambda>d. xvals ! d) (draws_at choice n p)
                      \<and> grid_at g (draws_at choice n p) = (if i < num_samples then 1 else - 1)))"
proof -
  from run obtain a pa b pb where
    r1: "sample_loop fuel g xvals num_samples n 1 choice 0 [] = Some (Inr (a, pa))"
    and r2: "sample_loop fuel g xvals num_samples n (- 1) choice pa [] = Some (Inr (b, pb))"
    and samples: "samples = a @ b"
    and labels: "labels = replicate num_samples 0 @ replicate num_samples 1"
    by (auto simp: sample_ad_hoc_data_def split: option.splits sum.splits prod.splits)
  from sample_loop_result [OF r1] have la: "length a = num_samples"
    and rows_a: "\<forall>row \<in> set a. \<exists>p. row = map (\<lambda>d. xvals ! d) (draws_at choice n p)
                      \<and> grid_at g (draws_at choice n p) = 1"
    by simp_all
  from sample_loop_result [OF r2] have lb: "length b = num_samples"
    and rows_b: "\<forall>row \<in> set b. \<exists>p. row = map (\<lambda>d. xvals ! d) (draws_at choice n p)
                      \<and> grid_at g (draws_at choice n p) = - 1"
    by simp_all
  have "length (samples ! i) = n
        \<and> (\<exists>p. samples ! i = map (\<lambda>d. xvals ! d) (draws_at choice n p)
               \<and> grid_at g (draws_at choice n p) = (if i < num_samples then 1 else - 1))"
    if i: "i < 2 * num_samples" for i
  proof (cases "i < num_samples")
    case True
    then have "samples ! i = a ! i" and "a ! i \<in> set a"
      by (simp_all add: samples nth_append la)
    with rows_a True show ?thesis by auto
  next
    case False
    with i have "samples ! i = b ! (i - num_samples)" and "b ! (i - num_samples) \<in> set b"
      by (simp_all add: samples nth_append la lb)
    with rows_b False show ?thesis by auto
  qed
  with labels samples la lb show ?thesis by simp
qed

lemma example_hits:
  "hits_forever example_grid example_choice 1 1"
  "hits_forever example_grid example_choice 1 (- 1)"
proof -
  have even: "hit example_grid example_choice 1 1 (2 * j)" for j
    by (simp add: hit_def grid_at_def draws_at_def example_grid_def example_choice_def)
  have odd: "hit example_grid example_choice 1 (- 1) (Suc (2 * j))" for j
    by (simp add: hit_def grid_at_def draws_at_def example_grid_def example_choice_def)
  show "hits_forever example_grid example_choice 1 1"
    unfolding hits_forever_def
  proof (intro allI)
    fix j :: nat
    have "j \<le> 2 * j" by simp
    with even [of j] show "\<exists>k\<ge>j. hit example_grid example_choice 1 1 k" by blast
  qed
  show "hits_forever example_grid example_choice 1 (- 1)"
    unfolding hits_forever_def
  proof (intro allI)
    fix j :: nat
    have "j \<le> Suc (2 * j)" by simp
    with odd [of j] show "\<exists>k\<ge>j. hit example_grid example_choice 1 (- 1) k" by blast
  qed
qed

section \<open>Facts about double precision\<close>















lemma round_half_even_of_int [simp]: "round_half_even (of_int n) = n"
  by (simp add: round_half_even_def)

lemma round_half_even_bounds:
  "\<lfloor>x\<rfloor> \<le> round_half_even x" "round_half_even x \<le> \<lfloor>x\<rfloor> + 1"
  by (simp_all add: round_half_even_def Let_def)

lemma round_half_even_mono:
  assumes "a \<le> b"
  shows "round_half_even a \<le> round_half_even b"
proof (cases "\<lfloor>a\<rfloor> < \<lfloor>b\<rfloor>")
  case True
  have "round_half_even a \<le> \<lfloor>a\<rfloor> + 1" by (rule round_half_even_bounds)
  also have "\<dots> \<le> \<lfloor>b\<rfloor>" using True by simp
  also have "\<dots> \<le> round_half_even b" by (rule round_half_even_bounds)
  finally show ?thesis .
next
  case False
  moreover have "\<lfloor>a\<rfloor> \<le> \<lfloor>b\<rfloor>" using assms by (rule floor_mono)
  ultimately have eq: "\<lfloor>a\<rfloor> = \<lfloor>b\<rfloor>" by simp
  have "a - of_int \<lfloor>b\<rfloor> \<le> b - of_int \<lfloor>b\<rfloor>" using assms by simp
  then show ?thesis
    unfolding round_half_even_def Let_def eq by (simp split: if_splits)
qed

lemma floor_log2_bounds:
  assumes "0 < x"
  shows "2 powi floor_log2 x \<le> x" and "x < 2 powi (floor_log2 x + 1)"
proof -
  have "2 powi floor_log2 x \<le> x \<and> x < 2 powi (floor_log2 x + 1)"
  proof (cases "1 \<le> x")
    case True
    define m where "m = \<lfloor>x\<rfloor>"
    have m: "0 < m" using True by (simp add: m_def)
    from bitlen_bounds [OF m] have lo: "2 ^ nat (bitlen m - 1) \<le> m" and hi: "m < 2 ^ nat (bitlen m)"
      by simp_all
    have b1: "1 \<le> bitlen m" using m by (simp add: bitlen_alt_def)
    have k: "floor_log2 x = bitlen m - 1" using True by (simp add: floor_log2_def m_def)
    have "(2::real) powi (bitlen m - 1) = 2 ^ nat (bitlen m - 1)"
      using b1 by (simp add: power_int_nonneg_exp)
    also have "\<dots> = of_int (2 ^ nat (bitlen m - 1))" by simp
    also have "\<dots> \<le> of_int m" using lo by (simp only: of_int_le_iff)
    also have "\<dots> \<le> x" by (simp add: m_def)
    finally have low: "2 powi floor_log2 x \<le> x" by (simp add: k)
    have "m + 1 \<le> 2 ^ nat (bitlen m)" using hi by simp
    then have "(of_int (m + 1) :: real) \<le> of_int (2 ^ nat (bitlen m))"
      by (simp only: of_int_le_iff)
    moreover have "x < of_int (m + 1)" by (simp add: m_def)
    ultimately have "x < of_int (2 ^ nat (bitlen m))" by linarith
    also have "\<dots> = 2 ^ nat (bitlen m)" by simp
    also have "\<dots> = 2 powi (bitlen m)" using b1 by (simp add: power_int_nonneg_exp)
    finally have "x < 2 powi (floor_log2 x + 1)" by (simp add: k)
    with low show ?thesis by simp
  next
    case False
    define y where "y = 1 / x"
    define m where "m = \<lceil>y\<rceil> - 1"
    have y1: "1 < y" using False assms by (simp add: y_def)
    then have m: "0 < m" unfolding m_def by linarith
    have my: "of_int m < y" and ym: "y \<le> of_int (m + 1)"
      unfolding m_def by linarith+
    from bitlen_bounds [OF m] have lo: "2 ^ nat (bitlen m - 1) \<le> m" and hi: "m < 2 ^ nat (bitlen m)"
      by simp_all
    have b1: "1 \<le> bitlen m" using m by (simp add: bitlen_alt_def)
    have k: "floor_log2 x = - bitlen m" using False by (simp add: floor_log2_def m_def y_def)
    have x: "x = 1 / y" using assms by (simp add: y_def)
    have "m + 1 \<le> 2 ^ nat (bitlen m)" using hi by simp
    then have "(of_int (m + 1) :: real) \<le> of_int (2 ^ nat (bitlen m))"
      by (simp only: of_int_le_iff)
    with ym have "y \<le> 2 ^ nat (bitlen m)" by simp
    then have "1 / (2 ^ nat (bitlen m)) \<le> 1 / y" using y1 by (simp add: frac_le)
    then have "1 / (2 ^ nat (bitlen m)) \<le> x" unfolding x .
    moreover have "(2::real) powi (- bitlen m) = 1 / 2 ^ nat (bitlen m)"
      using b1 by (simp add: power_int_minus_divide power_int_nonneg_exp)
    ultimately have low: "2 powi floor_log2 x \<le> x" unfolding k by simp
    have "(of_int (2 ^ nat (bitlen m - 1)) :: real) \<le> of_int m"
      using lo by (simp only: of_int_le_iff)
    then have "(2::real) ^ nat (bitlen m - 1) \<le> of_int m" by simp
    with my have lt: "2 ^ nat (bitlen m - 1) < y" by linarith
    have "1 / y < 1 / 2 ^ nat (bitlen m - 1)"
      using lt by (simp add: frac_less2)
    then have "x < 1 / 2 ^ nat (bitlen m - 1)" unfolding x .
    moreover have "(2::real) powi (- bitlen m + 1) = 1 / 2 ^ nat (bitlen m - 1)"
    proof -
      have "- bitlen m + 1 = - (bitlen m - 1)" by simp
      then have "(2::real) powi (- bitlen m + 1) = 1 / 2 powi (bitlen m - 1)"
        by (simp only: power_int_minus_divide)
      also have "\<dots> = 1 / 2 ^ nat (bitlen m - 1)" using b1 by (simp add: power_int_nonneg_exp)
      finally show ?thesis .
    qed
    ultimately have "x < 2 powi (floor_log2 x + 1)" unfolding k by simp
    with low show ?thesis by simp
  qed
  then show "2 powi floor_log2 x \<le> x" and "x < 2 powi (floor_log2 x + 1)" by simp_all
qed

lemma fl64_pos_eq:
  "0 < x \<Longrightarrow> fl64 x = of_int (round_half_even (x / 2 powi (floor_log2 x - 52)))
                         * 2 powi (floor_log2 x - 52)"
  by (simp add: fl64_def Let_def)

lemma scaled_bounds:
  assumes "0 < x"
  shows "2 ^ 52 \<le> x / 2 powi (floor_log2 x - 52)" and "x / 2 powi (floor_log2 x - 52) < 2 ^ 53"
proof -
  let ?k = "floor_log2 x"
  have pos: "(0::real) < 2 powi (?k - 52)" by simp
  have split: "(2::real) powi ?k = 2 ^ 52 * 2 powi (?k - 52)"
    by (simp add: power_int_diff)
  have split': "(2::real) powi (?k + 1) = 2 ^ 53 * 2 powi (?k - 52)"
    by (simp add: power_int_diff power_int_add)
  from floor_log2_bounds(1) [OF assms] have "2 ^ 52 * 2 powi (?k - 52) \<le> x"
    by (simp only: split)
  then show "2 ^ 52 \<le> x / 2 powi (?k - 52)" using pos by (simp add: pos_le_divide_eq)
  from floor_log2_bounds(2) [OF assms] have "x < 2 ^ 53 * 2 powi (?k - 52)"
    by (simp only: split')
  then show "x / 2 powi (?k - 52) < 2 ^ 53" using pos by (simp add: pos_divide_less_eq)
qed

lemma round_scaled_bounds:
  assumes "0 < x"
  shows "2 ^ 52 \<le> round_half_even (x / 2 powi (floor_log2 x - 52))"
    and "round_half_even (x / 2 powi (floor_log2 x - 52)) \<le> 2 ^ 53"
proof -
  let ?s = "x / 2 powi (floor_log2 x - 52)"
  have "(of_int ((2::int) ^ 52) :: real) \<le> ?s" using scaled_bounds(1) [OF assms] by simp
  from round_half_even_mono [OF this] show "2 ^ 52 \<le> round_half_even ?s"
    by (simp only: round_half_even_of_int)
  have "?s \<le> of_int ((2::int) ^ 53)" using scaled_bounds(2) [OF assms] by simp
  from round_half_even_mono [OF this] show "round_half_even ?s \<le> 2 ^ 53"
    by (simp only: round_half_even_of_int)
qed

lemma fl64_nonneg:
  assumes "0 \<le> x"
  shows "0 \<le> fl64 x"
proof (cases "x = 0")
  case True
  then show ?thesis by (simp add: fl64_def)
next
  case False
  with assms have pos: "0 < x" by simp
  have "(0::int) \<le> 2 ^ 52" by simp
  also have "\<dots> \<le> round_half_even (x / 2 powi (floor_log2 x - 52))"
    by (rule round_scaled_bounds(1) [OF pos])
  finally show ?thesis by (simp add: fl64_pos_eq [OF pos])
qed

lemma fl64_mono_pos:
  assumes x: "0 < x" and xy: "x \<le> y"
  shows "fl64 x \<le> fl64 y"
proof -
  from x xy have y: "0 < y" by simp
  let ?kx = "floor_log2 x" and ?ky = "floor_log2 y"
  have le: "?kx \<le> ?ky"
  proof (rule ccontr)
    assume "\<not> ?kx \<le> ?ky"
    then have "?ky + 1 \<le> ?kx" by simp
    then have "(2::real) powi (?ky + 1) \<le> 2 powi ?kx" by (simp add: power_int_increasing)
    with floor_log2_bounds(2) [OF y] floor_log2_bounds(1) [OF x] xy show False by linarith
  qed
  show ?thesis
  proof (cases "?kx = ?ky")
    case True
    have pos: "(0::real) < 2 powi (?ky - 52)" by simp
    have "x / 2 powi (?ky - 52) \<le> y / 2 powi (?ky - 52)"
      using xy pos by (simp add: divide_right_mono)
    then have "round_half_even (x / 2 powi (?ky - 52)) \<le> round_half_even (y / 2 powi (?ky - 52))"
      by (rule round_half_even_mono)
    then have "(of_int (round_half_even (x / 2 powi (?ky - 52))) :: real)
               \<le> of_int (round_half_even (y / 2 powi (?ky - 52)))"
      by (simp only: of_int_le_iff)
    then have "(of_int (round_half_even (x / 2 powi (?ky - 52))) :: real) * 2 powi (?ky - 52)
               \<le> of_int (round_half_even (y / 2 powi (?ky - 52))) * 2 powi (?ky - 52)"
      using pos by (simp add: mult_right_mono)
    then show ?thesis by (simp add: fl64_pos_eq [OF x] fl64_pos_eq [OF y] True)
  next
    case False
    with le have lt: "?kx + 1 \<le> ?ky" by simp
    have posx: "(0::real) < 2 powi (?kx - 52)" and posy: "(0::real) < 2 powi (?ky - 52)"
      by simp_all
    have "(of_int (round_half_even (x / 2 powi (?kx - 52))) :: real) \<le> of_int (2 ^ 53)"
      using round_scaled_bounds(2) [OF x] by (simp only: of_int_le_iff)
    then have "fl64 x \<le> 2 ^ 53 * 2 powi (?kx - 52)"
      using posx by (simp add: fl64_pos_eq [OF x] mult_right_mono)
    also have "\<dots> = 2 powi (?kx + 1)" by (simp add: power_int_diff power_int_add)
    also have "\<dots> \<le> 2 powi ?ky" using lt by (simp add: power_int_increasing)
    also have "\<dots> = 2 ^ 52 * 2 powi (?ky - 52)" by (simp add: power_int_diff)
    also have "\<dots> \<le> fl64 y"
    proof -
      have "(of_int (2 ^ 52) :: real) \<le> of_int (round_half_even (y / 2 powi (?ky - 52)))"
        using round_scaled_bounds(1) [OF y] by (simp only: of_int_le_iff)
      then show ?thesis using posy by (simp add: fl64_pos_eq [OF y] mult_right_mono)
    qed
    finally show ?thesis .
  qed
qed

lemma fl64_mono:
  assumes "0 \<le> x" and "x \<le> y"
  shows "fl64 x \<le> fl64 y"
proof (cases "x = 0")
  case True
  with assms fl64_nonneg [of y] show ?thesis by (simp add: fl64_def)
next
  case False
  with assms have "0 < x" by simp
  then show ?thesis using assms(2) by (rule fl64_mono_pos)
qed

section \<open>The claims about \<^verbatim>\<open>_n_hadamard\<close> and \<^verbatim>\<open>_n_z\<close>\<close>




text \<open>
  Claim C9. For every \<open>n \<ge> 1\<close>, with \<open>h_n\<close> the result of \<^verbatim>\<open>_n_hadamard(n)\<close>,
  \<^verbatim>\<open>_n_z(h_n)\<close> returns the \<open>n\<close>-fold Kronecker product of the Pauli matrix
  \<open>Z = diag (1, -1)\<close>: a \<open>2 ^ n\<close> by \<open>2 ^ n\<close> matrix that is zero off the diagonal and
  whose \<open>k\<close>-th diagonal entry is \<open>-1\<close> to the number of 1-bits of \<open>k\<close>.
\<close>

theorem n_z_is_pauli_z_power:
  assumes "1 \<le> n"
  shows "\<exists>Z. n_z (n_hadamard n) = Inr Z
           \<and> kron_power pauli_z (nat n) = Mat Z
           \<and> is_matrix (2 ^ nat n) (2 ^ nat n) Z
           \<and> (\<forall>k < 2 ^ nat n. \<forall>j < 2 ^ nat n.
                 Z ! k ! j = (if k = j then (- 1) ^ popcount k else 0))"
proof -
  let ?Z = "kpow pauli_z (nat n)"
  have pos: "0 < nat n" using assms by simp
  have run: "n_z (n_hadamard n) = Inr ?Z" using assms by (rule n_z_n_hadamard)
  have spec: "kron_power pauli_z (nat n) = Mat ?Z" using pos by (rule kron_power_Mat)
  have diag: "?Z = diag_matrix (vpow [1, - 1] (nat n))"
    by (simp add: diag_matrix_vpow pauli_z_def)
  have shape: "is_matrix (2 ^ nat n) (2 ^ nat n) ?Z"
    using is_matrix_diag_matrix [of "vpow [1, - 1] (nat n)"] by (simp add: diag)
  have entries: "?Z ! k ! j = (if k = j then (- 1) ^ popcount k else 0)"
    if "k < 2 ^ nat n" and "j < 2 ^ nat n" for k j
    using that by (simp add: diag nth_diag_matrix nth_vpow_sign)
  show ?thesis
    by (rule exI [of _ ?Z]) (simp add: run spec shape entries)
qed

theorem n_z_is_pauli_z_power_witness:
  "(1::int) \<le> 1 \<and> n_z (n_hadamard 1) = Inr [[1, 0], [0, - 1]]
   \<and> kron_power pauli_z (nat 1) = Mat [[1, 0], [0, - 1]]"
proof -
  from n_z_is_pauli_z_power [of 1] obtain Z where
    run: "n_z (n_hadamard 1) = Inr Z" and spec: "kron_power pauli_z (nat 1) = Mat Z"
    by auto
  have "kron_power pauli_z (nat 1) = Mat [[1, 0], [0, - 1]]"
    by (simp add: pauli_z_def diag_matrix_def map_idI upt_rec)
  with run spec show ?thesis by simp
qed

section \<open>The claims about the samplers\<close>

text \<open>
  Claim C8. Every sampled input vector lies in a bounded parameter space: for every
  \<open>n \<ge> 1\<close>, \<open>n_samples \<ge> 1\<close> and \<open>n_div \<ge> 1\<close>, every entry of the array that
  \<^verbatim>\<open>_modified_LHC(n, n_samples, n_div)\<close> returns is at least 0 and less than \<open>2 * pi\<close>,
  and so is every entry of the array that \<^verbatim>\<open>_sobol_sampling(n, n_samples)\<close> returns.
  The generator and the Sobol sampler keep their contracts; the content of the
  uninitialised array does not matter.
\<close>

theorem sampled_vectors_in_parameter_space:
  assumes "1 \<le> n" and "1 \<le> n_samples" and "1 \<le> n_div"
    and "lhc_random_ok rng n n_samples (length (lhc_all_bins n_samples n_div))"
    and "is_matrix n_samples n uninit"
    and "unit_interval_matrix n_samples n (sobol_random n n_samples)"
  shows "(\<exists>S. modified_LHC n n_samples n_div rng uninit = Inr S
              \<and> is_matrix n_samples n S \<and> in_parameter_space S)
         \<and> is_matrix n_samples n (sobol_sampling n n_samples sobol_random)
         \<and> in_parameter_space (sobol_sampling n n_samples sobol_random)"
proof -
  from assms(3) have pos: "0 < n_div" by simp
  have lhc: "\<exists>S. modified_LHC n n_samples n_div rng uninit = Inr S
              \<and> is_matrix n_samples n S \<and> in_parameter_space S"
    using pos assms(4) assms(5) by (rule modified_LHC_in_parameter_space)
  have "is_matrix n_samples n (sobol_sampling n n_samples sobol_random)"
    and "in_parameter_space (sobol_sampling n n_samples sobol_random)"
    using sobol_sampling_in_parameter_space [of n_samples n sobol_random] assms(6) by simp_all
  with lhc show ?thesis by simp
qed

theorem sampled_vectors_in_parameter_space_witness:
  "(\<exists>S. modified_LHC 2 3 2
          \<lparr>shuffle_perm = (\<lambda>d. [3, 0, 2, 1]), random_offset = (\<lambda>d s. 1 / 2)\<rparr>
          [[7, 7], [7, 7], [7, 7]] = Inr S
        \<and> is_matrix 3 2 S \<and> in_parameter_space S)
   \<and> is_matrix 3 2 (sobol_sampling 2 3 (\<lambda>d k. replicate k (replicate d (1 / 4))))
   \<and> in_parameter_space (sobol_sampling 2 3 (\<lambda>d k. replicate k (replicate d (1 / 4))))"
proof -
  let ?rng = "\<lparr>shuffle_perm = (\<lambda>d. [3, 0, 2, 1]), random_offset = (\<lambda>d s. 1 / 2)\<rparr>"
  have len: "length (lhc_all_bins 3 2) = 4"
    by (simp add: length_lhc_all_bins lhc_n_passes_def)
  have ok: "lhc_random_ok ?rng 2 3 (length (lhc_all_bins 3 2))"
    unfolding len by (simp add: lhc_random_ok_def is_permutation_def list_all_iff)
  have uninit: "is_matrix 3 2 [[7, 7], [7, 7], [7, 7]]"
    by (simp add: is_matrix_def)
  have sobol: "unit_interval_matrix 3 2 ((\<lambda>d k. replicate k (replicate d (1 / 4))) 2 3)"
    by (simp add: unit_interval_matrix_def is_matrix_def list_all_iff)
  have n: "(1::nat) \<le> 2" and ns: "(1::nat) \<le> 3" by simp_all
  show ?thesis
    using sampled_vectors_in_parameter_space
      [of 2 3 2 ?rng "[[7, 7], [7, 7], [7, 7]]" "\<lambda>d k. replicate k (replicate d (1 / 4))"]
      n ns ok uninit sobol
    by simp
qed




section \<open>The claim about \<^verbatim>\<open>_sample_ad_hoc_data\<close>\<close>

text \<open>
  Claim C10, as stated: the rejection-sampling loop terminates precisely when the grid
  holds a cell equal to 1 and a cell equal to -1 (and the generator hits such cells), and
  never terminates when one of the two labels is absent. That fails when no sample is
  asked for: with \<open>num_samples = 0\<close> neither loop runs a round, and the function returns
  on a grid that has no cell equal to -1.
\<close>

theorem sample_ad_hoc_data_zero_samples:
  "grid_ok 1 example_grid_one_label
   \<and> choice_ok example_choice_zero example_grid_one_label
   \<and> - 1 \<notin> set (flat example_grid_one_label)
   \<and> sample_ad_hoc_data 0 example_grid_one_label [1 / 2] 0 1 example_choice_zero
       = Some (Inr ([], []))"
  by (simp add: grid_ok_def choice_ok_def example_grid_one_label_def example_choice_zero_def
        sample_ad_hoc_data_def)

text \<open>
  Claim C10, amended. On a grid of \<open>n \<ge> 1\<close> dimensions, with a generator that keeps its
  contract and \<^verbatim>\<open>xvals\<close> as long as the grid is wide: if the generator hits a cell
  equal to 1 again and again, and a cell equal to -1 again and again, then
  \<^verbatim>\<open>_sample_ad_hoc_data\<close> returns; if \<open>num_samples \<ge> 1\<close> and one of the two labels is
  absent from the grid, it never returns; and whenever it returns, it returns the labels
  \<^verbatim>\<open>[0] * num_samples + [1] * num_samples\<close> and \<open>2 * num_samples\<close> rows of \<open>n\<close>
  entries, each row the values of \<^verbatim>\<open>xvals\<close> at the indices of one draw, whose cell
  holds 1 for the first \<open>num_samples\<close> rows and -1 for the others.
\<close>

theorem sample_ad_hoc_data_terminates_iff_hits:
  assumes "grid_ok n sample_total" and "choice_ok choice sample_total"
    and "shape0 sample_total \<le> length xvals"
  shows "(hits_forever sample_total choice n 1 \<and> hits_forever sample_total choice n (- 1) \<longrightarrow>
            (\<exists>fuel samples. sample_ad_hoc_data fuel sample_total xvals num_samples n choice
               = Some (Inr (samples, replicate num_samples 0 @ replicate num_samples 1))))
         \<and> (1 \<le> num_samples
              \<and> (1 \<notin> set (flat sample_total) \<or> - 1 \<notin> set (flat sample_total)) \<longrightarrow>
              (\<forall>fuel. sample_ad_hoc_data fuel sample_total xvals num_samples n choice = None))
         \<and> (\<forall>fuel samples labels.
               sample_ad_hoc_data fuel sample_total xvals num_samples n choice
                 = Some (Inr (samples, labels)) \<longrightarrow>
               labels = replicate num_samples 0 @ replicate num_samples 1
               \<and> length samples = 2 * num_samples
               \<and> (\<forall>i < 2 * num_samples. length (samples ! i) = n
                     \<and> (\<exists>p. samples ! i = map (\<lambda>d. xvals ! d) (draws_at choice n p)
                            \<and> grid_at sample_total (draws_at choice n p)
                                = (if i < num_samples then 1 else - 1))))"
proof (intro conjI impI allI)
  assume "hits_forever sample_total choice n 1 \<and> hits_forever sample_total choice n (- 1)"
  then show "\<exists>fuel samples. sample_ad_hoc_data fuel sample_total xvals num_samples n choice
               = Some (Inr (samples, replicate num_samples 0 @ replicate num_samples 1))"
    using sample_ad_hoc_data_returns [OF assms(2) assms(3)] by blast
next
  fix fuel
  assume "1 \<le> num_samples
          \<and> (1 \<notin> set (flat sample_total) \<or> - 1 \<notin> set (flat sample_total))"
  then show "sample_ad_hoc_data fuel sample_total xvals num_samples n choice = None"
    using sample_ad_hoc_data_never_returns [OF assms] by blast
next
  fix fuel samples labels
  assume run: "sample_ad_hoc_data fuel sample_total xvals num_samples n choice
                 = Some (Inr (samples, labels))"
  from sample_ad_hoc_data_result [OF run]
  show "labels = replicate num_samples 0 @ replicate num_samples 1"
    and "length samples = 2 * num_samples"
    by simp_all
next
  fix fuel samples labels i
  assume run: "sample_ad_hoc_data fuel sample_total xvals num_samples n choice
                 = Some (Inr (samples, labels))"
    and i: "i < 2 * num_samples"
  from sample_ad_hoc_data_result [OF run] i
  show "length (samples ! i) = n"
    and "\<exists>p. samples ! i = map (\<lambda>d. xvals ! d) (draws_at choice n p)
             \<and> grid_at sample_total (draws_at choice n p) = (if i < num_samples then 1 else - 1)"
    by simp_all
qed

theorem sample_ad_hoc_data_terminates_iff_hits_witness:
  "(\<exists>fuel samples. sample_ad_hoc_data fuel example_grid [1 / 2, 3 / 2] 2 1 example_choice
       = Some (Inr (samples, replicate 2 0 @ replicate 2 1)))
   \<and> (\<forall>fuel. sample_ad_hoc_data fuel example_grid_one_label [1 / 2] 1 1 example_choice_zero = None)
   \<and> sample_ad_hoc_data 3 example_grid [1 / 2, 3 / 2] 1 1 example_choice
       = Some (Inr ([[1 / 2], [3 / 2]], [0, 1]))
   \<and> (\<exists>p. [[1 / 2], [3 / 2 :: real]] ! 0
            = map (\<lambda>d. [1 / 2, 3 / 2 :: real] ! d) (draws_at example_choice 1 p)
          \<and> grid_at example_grid (draws_at example_choice 1 p) = 1)
   \<and> (\<exists>p. [[1 / 2], [3 / 2 :: real]] ! 1
            = map (\<lambda>d. [1 / 2, 3 / 2 :: real] ! d) (draws_at example_choice 1 p)
          \<and> grid_at example_grid (draws_at example_choice 1 p) = - 1)"
proof -
  have ok: "grid_ok 1 example_grid" and ch: "choice_ok example_choice example_grid"
    and xv: "shape0 example_grid \<le> length [1 / 2, 3 / 2 :: real]"
    by (simp_all add: grid_ok_def choice_ok_def example_grid_def example_choice_def)
  have ok1: "grid_ok 1 example_grid_one_label"
    and ch1: "choice_ok example_choice_zero example_grid_one_label"
    and xv1: "shape0 example_grid_one_label \<le> length [1 / 2 :: real]"
    and absent: "- 1 \<notin> set (flat example_grid_one_label)"
    by (simp_all add: grid_ok_def choice_ok_def example_grid_one_label_def example_choice_zero_def)
  note t = sample_ad_hoc_data_terminates_iff_hits [OF ok ch xv, of 2]
  note t1 = sample_ad_hoc_data_terminates_iff_hits [OF ok1 ch1 xv1, of 1]
  from t example_hits have a: "\<exists>fuel samples.
      sample_ad_hoc_data fuel example_grid [1 / 2, 3 / 2] 2 1 example_choice
       = Some (Inr (samples, replicate 2 0 @ replicate 2 1))"
    by blast
  from t1 absent have b: "\<forall>fuel.
      sample_ad_hoc_data fuel example_grid_one_label [1 / 2] 1 1 example_choice_zero = None"
    by simp
  have c: "sample_ad_hoc_data 3 example_grid [1 / 2, 3 / 2] 1 1 example_choice
       = Some (Inr ([[1 / 2], [3 / 2]], [0, 1]))"
    by (simp add: sample_ad_hoc_data_def numeral_3_eq_3 Let_def grid_at_def draws_at_def
          example_grid_def example_choice_def)
  note t' = sample_ad_hoc_data_terminates_iff_hits [OF ok ch xv, of 1]
  from t' have "\<forall>fuel samples labels.
      sample_ad_hoc_data fuel example_grid [1 / 2, 3 / 2] 1 1 example_choice
        = Some (Inr (samples, labels)) \<longrightarrow>
      (\<forall>i < 2 * (1::nat). length (samples ! i) = 1
         \<and> (\<exists>p. samples ! i = map (\<lambda>d. [1 / 2, 3 / 2] ! d) (draws_at example_choice 1 p)
                \<and> grid_at example_grid (draws_at example_choice 1 p)
                    = (if i < 1 then 1 else - 1)))"
    by blast
  with c have d: "\<forall>i < 2 * (1::nat). length ([[1 / 2], [3 / 2 :: real]] ! i) = 1
         \<and> (\<exists>p. [[1 / 2], [3 / 2 :: real]] ! i
                  = map (\<lambda>d. [1 / 2, 3 / 2 :: real] ! d) (draws_at example_choice 1 p)
                \<and> grid_at example_grid (draws_at example_choice 1 p)
                    = (if i < 1 then 1 else - 1))"
    by blast
  have "(0::nat) < 2 * 1" by simp
  with d have "\<exists>p. [[1 / 2], [3 / 2 :: real]] ! 0
            = map (\<lambda>d. [1 / 2, 3 / 2 :: real] ! d) (draws_at example_choice 1 p)
          \<and> grid_at example_grid (draws_at example_choice 1 p) = (if (0::nat) < 1 then 1 else - 1)"
    by blast
  then have d0: "\<exists>p. [[1 / 2], [3 / 2 :: real]] ! 0
            = map (\<lambda>d. [1 / 2, 3 / 2 :: real] ! d) (draws_at example_choice 1 p)
          \<and> grid_at example_grid (draws_at example_choice 1 p) = 1"
    by simp
  have "(1::nat) < 2 * 1" by simp
  with d have "\<exists>p. [[1 / 2], [3 / 2 :: real]] ! 1
            = map (\<lambda>d. [1 / 2, 3 / 2 :: real] ! d) (draws_at example_choice 1 p)
          \<and> grid_at example_grid (draws_at example_choice 1 p) = (if (1::nat) < 1 then 1 else - 1)"
    by blast
  then have d1: "\<exists>p. [[1 / 2], [3 / 2 :: real]] ! 1
            = map (\<lambda>d. [1 / 2, 3 / 2 :: real] ! d) (draws_at example_choice 1 p)
          \<and> grid_at example_grid (draws_at example_choice 1 p) = - 1"
    by simp
  from a b c d0 d1 show ?thesis by blast
qed

section \<open>The claims about \<^verbatim>\<open>ad_hoc_data\<close>\<close>

lemma resolve_n_hadamard: "resolve ''n_hadamard'' = Inl (NameError ''n_hadamard'')"
  by (simp add: resolve_def module_names_def builtin_names_def)

lemma resolve_sample_total: "resolve ''_sample_total'' = Inl (NameError ''_sample_total'')"
  by (simp add: resolve_def module_names_def builtin_names_def)

text \<open>
  Claim C1: for \<open>train_size \<ge> 1\<close>, \<open>test_size \<ge> 1\<close> and a valid \<open>n\<close>,
  \<^verbatim>\<open>ad_hoc_data\<close> returns training and testing samples. The code does not: the call
  \<^verbatim>\<open>ad_hoc_data(10,10,3,10,0)\<close> on the last line of the module raises NameError at
  line 112, whatever the rest of the body would do.
\<close>

theorem ad_hoc_data_module_call_raises:
  "ad_hoc_data 10 10 3 10 0 False True False rest = Inl (NameError ''n_hadamard'')"
  by (simp add: ad_hoc_data_def resolve_n_hadamard)

text \<open>
  Claim C5: \<^verbatim>\<open>ad_hoc_data\<close> raises ValueError if and only if \<open>n\<close> is not 2 or 3, and
  returns for \<open>n\<close> in \<open>{2, 3}\<close>. The code has no check of \<open>n\<close>: for \<open>n = 4\<close> it
  raises NameError and not ValueError, and for \<open>n = 2\<close> and \<open>n = 3\<close> it raises too.
\<close>

theorem ad_hoc_data_never_value_error:
  "ad_hoc_data train_size test_size 4 gap divisions plot_data one_hot include_sample_total rest
     = Inl (NameError ''n_hadamard'')
   \<and> ad_hoc_data train_size test_size 4 gap divisions plot_data one_hot include_sample_total rest
       \<noteq> Inl ValueError
   \<and> ad_hoc_data train_size test_size 2 gap divisions plot_data one_hot include_sample_total rest
       = Inl (NameError ''n_hadamard'')
   \<and> ad_hoc_data train_size test_size 3 gap divisions plot_data one_hot include_sample_total rest
       = Inl (NameError ''n_hadamard'')"
  by (simp add: ad_hoc_data_def resolve_n_hadamard)

text \<open>
  Claim C2: every sampled vector gets the label 1, -1 or 0 by comparing its expectation
  value with the gap. The code assigns no label: \<^verbatim>\<open>ad_hoc_data\<close> raises before it
  samples a vector, and the labelling statement itself raises on the ten expectation
  values of a batch, and on a single one as well.
\<close>

theorem ad_hoc_data_assigns_no_label:
  "ad_hoc_data 5 5 2 (3 / 10) 0 False True True rest = Inl (NameError ''n_hadamard'')
   \<and> label_step [1 / 2, - 1 / 2, 0, 1, 1, 1, 1, 1, 1, 1] (3 / 10) = Inl ValueError
   \<and> label_step [1 / 2] (3 / 10) = Inl (NameError ''_sample_total'')"
  by (simp add: ad_hoc_data_def resolve_n_hadamard label_step_def resolve_sample_total)

text \<open>
  Claim C6: each per-sample matrix \<^verbatim>\<open>Uphi\<close> is a diagonal unitary and every evolved
  state has norm 1. The code computes none of them: \<^verbatim>\<open>ad_hoc_data\<close> raises at line
  112, and the array \<^verbatim>\<open>Uphi\<close> has room for ten samples only, so that the twenty rows
  of \<^verbatim>\<open>post_exp\<close> of the module's own call do not fit.
\<close>

theorem ad_hoc_data_builds_no_uphi:
  "ad_hoc_data 10 10 3 10 0 False True False rest = Inl (NameError ''n_hadamard'')
   \<and> uphi_diagonals (replicate (10 + 10) row) = Inl ValueError"
  by (simp add: ad_hoc_data_def resolve_n_hadamard uphi_diagonals_def)

end
